theory Spec2Isabelle
  imports Complex_Main
begin

section \<open>Snapshot values and the interpreter operations the analysis relies on\<close>

text \<open>
  The report generator works on the value returned by \<^verbatim>\<open>json.load\<close>: nested dicts,
  lists, strings, integers, booleans and \<^verbatim>\<open>None\<close>.  A dict is kept as the list of its
  key/value pairs in insertion order (keys are looked up with \<open>map_of\<close>).  Strings are
  sequences of 8-bit code points.  Every number of a snapshot is an integer: a JSON number
  with a fraction or an exponent (which \<^verbatim>\<open>json.load\<close> reads as a float) has no
  counterpart here, and no statement below speaks about a snapshot that holds one.
\<close>

datatype json =
    JNull
  | JBool bool
  | JInt int
  | JStr string
  | JList "json list"
  | JObj "(string \<times> json) list"

datatype py_error = TypeError | AttributeError | OverflowError

definition ebind :: "py_error + 'a \<Rightarrow> ('a \<Rightarrow> py_error + 'b) \<Rightarrow> py_error + 'b" where
  "ebind m f = (case m of Inl e \<Rightarrow> Inl e | Inr x \<Rightarrow> f x)"

text \<open>Truth value testing: \<^verbatim>\<open>None\<close>, \<^verbatim>\<open>False\<close>, zero and empty containers are false.\<close>

fun truthy :: "json \<Rightarrow> bool" where
  "truthy JNull = False"
| "truthy (JBool b) = b"
| "truthy (JInt n) = (n \<noteq> 0)"
| "truthy (JStr s) = (s \<noteq> [])"
| "truthy (JList xs) = (xs \<noteq> [])"
| "truthy (JObj kvs) = (kvs \<noteq> [])"

text \<open>\<^verbatim>\<open>x.get(k)\<close> and \<^verbatim>\<open>x.get(k, d)\<close>: only a dict has the method.\<close>

fun py_get_d :: "json \<Rightarrow> string \<Rightarrow> json \<Rightarrow> py_error + json" where
  "py_get_d (JObj kvs) k d = Inr (case map_of kvs k of None \<Rightarrow> d | Some v \<Rightarrow> v)"
| "py_get_d _ k d = Inl AttributeError"

definition py_get :: "json \<Rightarrow> string \<Rightarrow> py_error + json" where
  "py_get x k = py_get_d x k JNull"

text \<open>\<^verbatim>\<open>len(x)\<close>: defined on strings, lists and dicts.\<close>

fun py_len :: "json \<Rightarrow> py_error + nat" where
  "py_len (JStr s) = Inr (length s)"
| "py_len (JList xs) = Inr (length xs)"
| "py_len (JObj kvs) = Inr (length kvs)"
| "py_len _ = Inl TypeError"

text \<open>
  Iteration (\<^verbatim>\<open>for x in v\<close>): a list yields its elements, a string its one-character
  strings, a dict its keys; anything else is not iterable.
\<close>

fun py_iter :: "json \<Rightarrow> py_error + json list" where
  "py_iter (JList xs) = Inr xs"
| "py_iter (JStr s) = Inr (map (\<lambda>c. JStr [c]) s)"
| "py_iter (JObj kvs) = Inr (map (\<lambda>kv. JStr (fst kv)) kvs)"
| "py_iter _ = Inl TypeError"

text \<open>\<^verbatim>\<open>v > k\<close> against an integer literal: integers and booleans compare, the rest raise.\<close>

fun py_gt_int :: "json \<Rightarrow> int \<Rightarrow> py_error + bool" where
  "py_gt_int (JInt n) k = Inr (n > k)"
| "py_gt_int (JBool b) k = Inr ((if b then 1 else 0) > k)"
| "py_gt_int _ k = Inl TypeError"

text \<open>A list comprehension \<^verbatim>\<open>[x for x in xs if p(x)]\<close> whose condition may raise.\<close>

fun filter_e :: "('a \<Rightarrow> py_error + bool) \<Rightarrow> 'a list \<Rightarrow> py_error + 'a list" where
  "filter_e p [] = Inr []"
| "filter_e p (x # xs) =
     ebind (p x) (\<lambda>b. ebind (filter_e p xs) (\<lambda>ys. Inr (if b then x # ys else ys)))"

section \<open>Risk scoring\<close>

text \<open>\<^verbatim>\<open>_get_member_of\<close>: the MemberOf value when it is a list, the empty list otherwise.\<close>

definition get_member_of :: "json \<Rightarrow> py_error + json list" where
  "get_member_of user =
     ebind (py_get user ''MemberOf'') (\<lambda>member_of.
       Inr (case member_of of JList xs \<Rightarrow> xs | _ \<Rightarrow> []))"

text \<open>\<^verbatim>\<open>u.get('SPNs') and len(u.get('SPNs', [])) > 0\<close>\<close>

definition has_spns :: "json \<Rightarrow> py_error + bool" where
  "has_spns u =
     ebind (py_get u ''SPNs'') (\<lambda>s.
       if truthy s
       then ebind (py_get_d u ''SPNs'' (JList [])) (\<lambda>s'.
              ebind (py_len s') (\<lambda>n. Inr (n > 0)))
       else Inr False)"

text \<open>\<^verbatim>\<open>u.get('TrustedForDelegation') or u.get('TrustedToAuthForDelegation')\<close>\<close>

definition has_delegation :: "json \<Rightarrow> py_error + bool" where
  "has_delegation u =
     ebind (py_get u ''TrustedForDelegation'') (\<lambda>a.
       if truthy a then Inr True
       else ebind (py_get u ''TrustedToAuthForDelegation'') (\<lambda>b. Inr (truthy b)))"

text \<open>The filter of \<^verbatim>\<open>computers_with_delegation\<close>, with its short-circuit order.\<close>

definition computer_delegation :: "json \<Rightarrow> py_error + bool" where
  "computer_delegation c =
     ebind (py_get c ''TrustedForDelegation'') (\<lambda>a.
     ebind (if truthy a then Inr True
            else ebind (py_get c ''TrustedToAuthForDelegation'') (\<lambda>b.
              if truthy b then Inr True
              else ebind (py_get c ''ConstrainedDelegation'') (\<lambda>cd.
                if truthy cd
                then ebind (py_get_d c ''ConstrainedDelegation'' (JList [])) (\<lambda>cd'.
                       ebind (py_len cd') (\<lambda>n. Inr (n > 0)))
                else Inr False))) (\<lambda>l.
     if l then ebind (py_get_d c ''IsDomainController'' (JBool False)) (\<lambda>dc.
                 Inr (\<not> truthy dc))
     else Inr False))"

text \<open>\<^verbatim>\<open>any(enc in ['DES', 'RC4'] for enc in u.get('EncryptionTypes', []))\<close>\<close>

definition any_weak_enc :: "json \<Rightarrow> py_error + bool" where
  "any_weak_enc u =
     ebind (py_get_d u ''EncryptionTypes'' (JList [])) (\<lambda>encs.
     ebind (py_iter encs) (\<lambda>xs.
       Inr (list_ex (\<lambda>enc. enc \<in> set [JStr ''DES'', JStr ''RC4'']) xs)))"

definition weak_encryption :: "json \<Rightarrow> py_error + bool" where
  "weak_encryption u =
     ebind (any_weak_enc u) (\<lambda>w.
       if w then Inr True
       else ebind (py_get_d u ''UseDESKeyOnly'' (JBool False)) (\<lambda>d. Inr (truthy d)))"

text \<open>\<^verbatim>\<open>min(v * 2, 100)\<close> for the NTLM event count \<open>v\<close>: an integer (or a boolean, which
  multiplies as 0 or 1) gives an integer; a string or list is repeated and then fails
  the comparison with 100; \<^verbatim>\<open>None\<close> and dicts fail the multiplication.\<close>

fun ntlm_score :: "json \<Rightarrow> py_error + int" where
  "ntlm_score (JInt n) = Inr (min (n * 2) 100)"
| "ntlm_score (JBool b) = Inr (min ((if b then 1 else 0) * 2) 100)"
| "ntlm_score _ = Inl TypeError"

text \<open>\<^verbatim>\<open>u.get(k) and u.get(k) > limit\<close>\<close>

definition days_over :: "string \<Rightarrow> int \<Rightarrow> json \<Rightarrow> py_error + bool" where
  "days_over k limit u =
     ebind (py_get u k) (\<lambda>v. if truthy v then py_gt_int v limit else Inr False)"

definition in_group :: "string \<Rightarrow> json \<Rightarrow> py_error + bool" where
  "in_group g u = ebind (get_member_of u) (\<lambda>member_of. Inr (JStr g \<in> set member_of))"

record risk_scores =
  kerberoasting :: int
  delegation :: int
  encryption :: int
  ntlm :: int
  privileged :: int
  inactive :: int

definition calculate_risk_scores :: "json \<Rightarrow> py_error + risk_scores" where
  "calculate_risk_scores data =
     ebind (py_get_d data ''Users'' (JList [])) (\<lambda>users_v.
     ebind (py_iter users_v) (\<lambda>users.
     ebind (filter_e has_spns users) (\<lambda>users_with_spns.
     ebind (filter_e has_delegation users) (\<lambda>users_with_delegation.
     ebind (py_get_d data ''Computers'' (JList [])) (\<lambda>computers_v.
     ebind (py_iter computers_v) (\<lambda>computers.
     ebind (filter_e computer_delegation computers) (\<lambda>computers_with_delegation.
     ebind (filter_e weak_encryption users) (\<lambda>weak_encryption_users.
     ebind (py_get_d data ''Statistics'' (JObj [])) (\<lambda>stats.
     ebind (py_get_d stats ''NTLMEventCount'' (JInt 0)) (\<lambda>cnt.
     ebind (ntlm_score cnt) (\<lambda>ntlm_v.
     ebind (filter_e (in_group ''Domain Admins'') users) (\<lambda>domain_admins.
     ebind (filter_e (\<lambda>u. ebind (in_group ''Protected Users'' u) (\<lambda>b. Inr (\<not> b)))
              domain_admins) (\<lambda>unprotected_admins.
     ebind (filter_e (days_over ''DaysSinceLastLogon'' 90) users) (\<lambda>inactive_users.
     ebind (filter_e (days_over ''DaysSincePasswordChange'' 365) users) (\<lambda>old_passwords.
       Inr \<lparr> kerberoasting = int (length users_with_spns) * 10,
             delegation = int (length users_with_delegation) * 15
                          + int (length computers_with_delegation) * 20,
             encryption = int (length weak_encryption_users) * 5,
             ntlm = ntlm_v,
             privileged = int (length unprotected_admins) * 25,
             inactive = int (length inactive_users) * 2
                        + int (length old_passwords) * 3 \<rparr>)))))))))))))))"

text \<open>
  \<^verbatim>\<open>total_score / 10\<close> is Python's true division of two integers: the quotient is
  rounded to the nearest double (53 significant bits, ties to the even mantissa), and an
  \<^verbatim>\<open>OverflowError\<close> is raised when the rounded result does not fit a double.  The
  result, a finite double, is kept as the rational number it denotes.
\<close>

fun bit_length :: "int \<Rightarrow> nat" where
  "bit_length n = (if n \<le> 0 then 0 else Suc (bit_length (n div 2)))"

declare bit_length.simps [simp del]

text \<open>Integer division rounded to the nearest integer, ties to the even one.\<close>

definition round_half_even_div :: "int \<Rightarrow> int \<Rightarrow> int" where
  "round_half_even_div n d =
     (let f = n div d; r = n mod d
      in if 2 * r < d then f
         else if d < 2 * r then f + 1
         else if even f then f else f + 1)"

text \<open>
  For \<open>t \<noteq> 0\<close> the binary exponent \<open>e\<close> of \<open>\<bar>t\<bar> / 10\<close> (that is,
  \<open>2 ^ e \<le> \<bar>t\<bar> / 10 < 2 ^ (e + 1)\<close>) is read off the bit length of \<open>\<lfloor>16 * \<bar>t\<bar> / 10\<rfloor>\<close>;
  the quotient is then rounded to a multiple of \<open>2 ^ (e - 52)\<close>.
\<close>

definition py_truediv10 :: "int \<Rightarrow> py_error + rat" where
  "py_truediv10 t =
     (if t = 0 then Inr 0
      else
        (let a = \<bar>t\<bar>;
             e = int (bit_length (a * 16 div 10)) - 5;
             v = (if e \<le> 52
                  then of_int (round_half_even_div (a * 2 ^ nat (52 - e)) 10)
                       / 2 ^ nat (52 - e)
                  else of_int (round_half_even_div a (10 * 2 ^ nat (e - 52))
                               * 2 ^ nat (e - 52)))
         in if 2 ^ 1024 \<le> v then Inl OverflowError
            else Inr (if t < 0 then - v else v)))"

text \<open>\<^verbatim>\<open>int(x)\<close> on a finite double truncates towards zero.\<close>

definition py_int :: "rat \<Rightarrow> int" where
  "py_int r = (if 0 \<le> r then \<lfloor>r\<rfloor> else \<lceil>r\<rceil>)"

text \<open>\<^verbatim>\<open>sum(self.risk_scores.values())\<close> over the six integer scores.\<close>

definition total_score :: "risk_scores \<Rightarrow> int" where
  "total_score rs = kerberoasting rs + delegation rs + encryption rs
                    + ntlm rs + privileged rs + inactive rs"

text \<open>
  \<^verbatim>\<open>get_overall_risk_score\<close> reads the scores stored by \<^verbatim>\<open>calculate_risk_scores\<close>; the
  model takes them as its argument.  \<^verbatim>\<open>min(x, 100)\<close> keeps the double \<open>x\<close> unless 100 is
  smaller.
\<close>

definition get_overall_risk_score :: "risk_scores \<Rightarrow> py_error + (int \<times> string \<times> string)" where
  "get_overall_risk_score rs =
     ebind (py_truediv10 (total_score rs)) (\<lambda>quotient.
       (let normalized_score = min quotient 100
        in if normalized_score < 30
           then Inr (py_int normalized_score, ''risk-low'', ''Low Risk'')
           else if normalized_score < 70
                then Inr (py_int normalized_score, ''risk-medium'', ''Medium Risk'')
                else Inr (py_int normalized_score, ''risk-high'', ''High Risk'')))"

section \<open>Strings\<close>

text \<open>\<^verbatim>\<open>str.lower()\<close> on 8-bit code points: A-Z and the Latin-1 capitals move up by 32.\<close>

definition lower_char :: "char \<Rightarrow> char" where
  "lower_char c =
     (let n = (of_char c :: nat)
      in if (65 \<le> n \<and> n \<le> 90) \<or> (192 \<le> n \<and> n \<le> 222 \<and> n \<noteq> 215)
         then char_of (n + 32) else c)"

definition py_lower :: "string \<Rightarrow> string" where
  "py_lower s = map lower_char s"

text \<open>\<^verbatim>\<open>v.lower()\<close> on a snapshot value: only strings have the method.\<close>

fun lower_of :: "json \<Rightarrow> py_error + string" where
  "lower_of (JStr s) = Inr (py_lower s)"
| "lower_of _ = Inl AttributeError"

definition py_startswith :: "string \<Rightarrow> string \<Rightarrow> bool" where
  "py_startswith s p = (take (length p) s = p)"

text \<open>\<^verbatim>\<open>sub in s\<close>, which is also \<^verbatim>\<open>s.find(sub) >= 0\<close>.\<close>

fun py_contains :: "string \<Rightarrow> string \<Rightarrow> bool" where
  "py_contains [] sub = (sub = [])"
| "py_contains (c # cs) sub = (py_startswith (c # cs) sub \<or> py_contains cs sub)"

text \<open>\<^verbatim>\<open>v.replace('$', '')\<close>\<close>

fun replace_dollar :: "json \<Rightarrow> py_error + string" where
  "replace_dollar (JStr s) = Inr (filter (\<lambda>c. c \<noteq> CHR ''$'') s)"
| "replace_dollar _ = Inl AttributeError"

fun py_join :: "string \<Rightarrow> string list \<Rightarrow> string" where
  "py_join sep [] = []"
| "py_join sep [x] = x"
| "py_join sep (x # y # ys) = x @ sep @ py_join sep (y # ys)"

fun digits :: "nat \<Rightarrow> string" where
  "digits n = (if n < 10 then [char_of (48 + n)]
               else digits (n div 10) @ [char_of (48 + n mod 10)])"

declare digits.simps [simp del]

text \<open>
  Formatting a value inside an f-string (\<^verbatim>\<open>str(v)\<close>).  The text Python prints for a
  list or a dict is the interpreter's \<^verbatim>\<open>repr\<close>; it is the parameter \<open>rp\<close> here.
\<close>

fun py_str :: "(json \<Rightarrow> string) \<Rightarrow> json \<Rightarrow> string" where
  "py_str rp (JStr s) = s"
| "py_str rp JNull = ''None''"
| "py_str rp (JBool b) = (if b then ''True'' else ''False'')"
| "py_str rp (JInt n) = (if n < 0 then ''-'' @ digits (nat (- n)) else digits (nat n))"
| "py_str rp v = rp v"

section \<open>Relationship graph and attack paths\<close>

text \<open>
  Nodes, edges and findings as \<^verbatim>\<open>generate_graph_visualization\<close> builds them.  The
  styling constants of a node (colour, shape, size) and the display texts of a finding
  (description, steps) are left out; the checks their evaluation performs are kept.
  An edge's \<^verbatim>\<open>attackPath\<close> and \<^verbatim>\<open>dashes\<close> keys are either absent or \<^verbatim>\<open>True\<close>.
\<close>

record node =
  n_id :: string
  n_label :: json
  n_type :: string
  n_group :: string
  n_risk :: "string option"
  n_spns :: "nat option"

record edge =
  e_from :: string
  e_to :: string
  e_label :: string
  e_color :: string
  e_arrows :: "string option"
  e_dashes :: bool
  e_attackPath :: bool
  e_width :: "nat option"

record attack_path =
  p_type :: string
  p_severity :: string
  p_path :: "string list"

record graph =
  nodes :: "node list"
  edges :: "edge list"
  node_id_map :: "string \<rightharpoonup> string"
  high_risk_users :: "json list"

text \<open>A \<^verbatim>\<open>for\<close> loop that updates the state and may raise.\<close>

fun fold_e :: "('a \<Rightarrow> 's \<Rightarrow> py_error + 's) \<Rightarrow> 'a list \<Rightarrow> 's \<Rightarrow> py_error + 's" where
  "fold_e f [] s = Inr s"
| "fold_e f (x # xs) s = ebind (f x s) (fold_e f xs)"

text \<open>A \<^verbatim>\<open>for\<close> loop that appends findings to a list and may raise.\<close>

fun emit_e :: "('a \<Rightarrow> py_error + 'b list) \<Rightarrow> 'a list \<Rightarrow> py_error + 'b list" where
  "emit_e f [] = Inr []"
| "emit_e f (x # xs) = ebind (f x) (\<lambda>ys. ebind (emit_e f xs) (\<lambda>zs. Inr (ys @ zs)))"

definition simple_edge :: "string \<Rightarrow> string \<Rightarrow> string \<Rightarrow> edge" where
  "simple_edge a b l =
     \<lparr> e_from = a, e_to = b, e_label = l, e_color = ''#848484'', e_arrows = None,
       e_dashes = False, e_attackPath = False, e_width = None \<rparr>"

definition red_edge :: "string \<Rightarrow> string \<Rightarrow> string \<Rightarrow> bool \<Rightarrow> edge" where
  "red_edge a b l deleg =
     \<lparr> e_from = a, e_to = b, e_label = l, e_color = ''#dc3545'', e_arrows = Some ''to'',
       e_dashes = deleg, e_attackPath = deleg, e_width = None \<rparr>"

definition user_risk :: "json \<Rightarrow> py_error + string" where
  "user_risk user =
     ebind (has_spns user) (\<lambda>c1. if c1 then Inr ''high'' else
     ebind (has_delegation user) (\<lambda>c2. if c2 then Inr ''high'' else
     ebind (in_group ''Domain Admins'' user) (\<lambda>c3. if c3 then Inr ''high'' else
     ebind (in_group ''Enterprise Admins'' user) (\<lambda>c4. if c4 then Inr ''high'' else
     ebind (any_weak_enc user) (\<lambda>c5. Inr (if c5 then ''medium'' else ''low''))))))"

definition user_id_of :: "(json \<Rightarrow> string) \<Rightarrow> json \<Rightarrow> string" where
  "user_id_of rp sam = ''user_'' @ py_str rp sam"

definition comp_id_of :: "(json \<Rightarrow> string) \<Rightarrow> json \<Rightarrow> string" where
  "comp_id_of rp sam = ''comp_'' @ py_str rp sam"

definition admin_groups_of :: "(json \<Rightarrow> string) \<Rightarrow> json list \<Rightarrow> string" where
  "admin_groups_of rp member_of =
     (let j = py_join '', '' (map (py_str rp)
                (filter (\<lambda>g. g \<in> set [JStr ''Domain Admins'', JStr ''Enterprise Admins''])
                   member_of))
      in if j = [] then ''user'' else j)"

definition add_user :: "(json \<Rightarrow> string) \<Rightarrow> string \<Rightarrow> json \<Rightarrow> graph \<Rightarrow> py_error + graph" where
  "add_user rp domain_id user g =
     ebind (user_risk user) (\<lambda>risk.
     ebind (get_member_of user) (\<lambda>member_of.
       if risk \<in> set [''high'', ''medium''] \<or> JStr ''Domain Admins'' \<in> set member_of
       then
         ebind (py_get user ''SamAccountName'') (\<lambda>sam.
         ebind (py_get_d user ''SamAccountName'' (JStr ''N/A'')) (\<lambda>label.
         ebind (py_get user ''SPNs'') (\<lambda>spns.
         ebind (if truthy spns
                then ebind (py_get_d user ''SPNs'' (JList [])) py_len
                else Inr 0) (\<lambda>n.
           Inr (g\<lparr> nodes := nodes g @
                     [\<lparr> n_id = user_id_of rp sam, n_label = label, n_type = ''user'',
                        n_group = admin_groups_of rp member_of, n_risk = Some risk,
                        n_spns = Some n \<rparr>],
                   edges := edges g @ [simple_edge domain_id (user_id_of rp sam) ''Member''],
                   node_id_map := (node_id_map g)(user_id_of rp sam \<mapsto> user_id_of rp sam),
                   high_risk_users := high_risk_users g @ [user] \<rparr>)))))
       else Inr g))"

definition privileged_groups :: "string list" where
  "privileged_groups =
     [''Domain Admins'', ''Enterprise Admins'', ''Schema Admins'', ''Account Operators'']"

definition add_member_edge ::
  "(json \<Rightarrow> string) \<Rightarrow> string \<Rightarrow> json \<Rightarrow> graph \<Rightarrow> py_error + graph" where
  "add_member_edge rp group_id member g =
     ebind (py_get member ''SamAccountName'') (\<lambda>user_sam.
       if truthy user_sam \<and> user_id_of rp user_sam \<in> dom (node_id_map g)
       then Inr (g\<lparr> edges := edges g @
                      [red_edge group_id (user_id_of rp user_sam) ''MemberOf'' False] \<rparr>)
       else Inr g)"

definition add_group :: "(json \<Rightarrow> string) \<Rightarrow> string \<Rightarrow> json \<Rightarrow> graph \<Rightarrow> py_error + graph" where
  "add_group rp domain_id grp g =
     ebind (py_get_d grp ''Name'' (JStr [])) (\<lambda>group_name.
       if group_name \<in> set (map JStr privileged_groups)
       then
         (let group_id = ''group_'' @ py_str rp group_name;
              g' = g\<lparr> nodes := nodes g @
                         [\<lparr> n_id = group_id, n_label = group_name, n_type = ''group'',
                            n_group = py_str rp group_name, n_risk = None,
                            n_spns = None \<rparr>],
                       edges := edges g @ [simple_edge domain_id group_id ''Contains''],
                       node_id_map := (node_id_map g)(group_id \<mapsto> group_id) \<rparr>
          in ebind (py_get_d grp ''Members'' (JList [])) (\<lambda>members_v.
             ebind (py_iter members_v) (\<lambda>members.
               fold_e (add_member_edge rp group_id) members g')))
       else Inr g)"

definition computer_in_graph :: "json \<Rightarrow> py_error + bool" where
  "computer_in_graph c =
     ebind (has_delegation c) (\<lambda>d.
       if d then Inr True
       else ebind (py_get c ''IsDomainController'') (\<lambda>dc. Inr (truthy dc)))"

definition add_computer ::
  "(json \<Rightarrow> string) \<Rightarrow> string \<Rightarrow> json \<Rightarrow> graph \<Rightarrow> py_error + graph" where
  "add_computer rp domain_id computer g =
     ebind (computer_in_graph computer) (\<lambda>inc.
       if inc
       then
         ebind (py_get computer ''SamAccountName'') (\<lambda>sam.
         ebind (py_get computer ''IsDomainController'') (\<lambda>dc.
         ebind (py_get_d computer ''SamAccountName'' (JStr ''N/A'')) (\<lambda>raw.
         ebind (replace_dollar raw) (\<lambda>label.
           Inr (g\<lparr> nodes := nodes g @
                     [\<lparr> n_id = comp_id_of rp sam, n_label = JStr label,
                        n_type = ''computer'',
                        n_group = (if truthy dc then ''DC'' else ''computer''),
                        n_risk = None, n_spns = None \<rparr>],
                   edges := edges g @
                     [simple_edge domain_id (comp_id_of rp sam) ''Contains''],
                   node_id_map :=
                     (node_id_map g)(comp_id_of rp sam \<mapsto> comp_id_of rp sam) \<rparr>)))))
       else Inr g)"

definition add_delegates_to ::
  "(json \<Rightarrow> string) \<Rightarrow> string \<Rightarrow> json \<Rightarrow> graph \<Rightarrow> py_error + graph" where
  "add_delegates_to rp user_id computer g =
     ebind (py_get computer ''SamAccountName'') (\<lambda>sam.
       if comp_id_of rp sam \<in> dom (node_id_map g)
       then Inr (g\<lparr> edges := edges g @
                      [red_edge user_id (comp_id_of rp sam) ''DelegatesTo'' True] \<rparr>)
       else Inr g)"

definition add_delegation_edges ::
  "(json \<Rightarrow> string) \<Rightarrow> json \<Rightarrow> json \<Rightarrow> graph \<Rightarrow> py_error + graph" where
  "add_delegation_edges rp data user g =
     ebind (has_delegation user) (\<lambda>d.
       if d
       then
         ebind (py_get user ''SamAccountName'') (\<lambda>sam.
           if user_id_of rp sam \<in> dom (node_id_map g)
           then ebind (py_get_d data ''Computers'' (JList [])) (\<lambda>computers_v.
                ebind (py_iter computers_v) (\<lambda>computers.
                  fold_e (add_delegates_to rp (user_id_of rp sam)) computers g))
           else Inr g)
       else Inr g)"

text \<open>The graph after the domain node has been added.\<close>

definition domain_graph :: "string \<Rightarrow> json \<Rightarrow> graph" where
  "domain_graph domain_id domain =
     \<lparr> nodes = [\<lparr> n_id = domain_id, n_label = domain, n_type = ''domain'',
                  n_group = ''domain'', n_risk = None, n_spns = None \<rparr>],
       edges = [],
       node_id_map = [domain_id \<mapsto> domain_id],
       high_risk_users = [] \<rparr>"

text \<open>Graph construction: everything before the comment "Detect attack paths".\<close>

definition build_graph :: "(json \<Rightarrow> string) \<Rightarrow> json \<Rightarrow> py_error + graph" where
  "build_graph rp data =
     ebind (py_get_d data ''Domain'' (JStr ''DOMAIN'')) (\<lambda>domain.
     (let domain_id = ''domain_'' @ py_str rp domain
      in
     ebind (py_get_d data ''Users'' (JList [])) (\<lambda>users_v.
     ebind (py_iter users_v) (\<lambda>users.
     ebind (fold_e (add_user rp domain_id) users (domain_graph domain_id domain)) (\<lambda>g1.
     ebind (py_get_d data ''SecurityGroups'' (JList [])) (\<lambda>groups_v.
     ebind (py_iter groups_v) (\<lambda>groups.
     ebind (fold_e (add_group rp domain_id) groups g1) (\<lambda>g2.
     ebind (py_get_d data ''Computers'' (JList [])) (\<lambda>computers_v.
     ebind (py_iter computers_v) (\<lambda>computers.
     ebind (fold_e (add_computer rp domain_id) computers g2) (\<lambda>g3.
       fold_e (add_delegation_edges rp data) (high_risk_users g3) g3)))))))))))"

section \<open>Attack-path detection\<close>

text \<open>Rule 1, the body of the loop: membership of Domain Admins.\<close>

definition group_membership_rule ::
  "(json \<Rightarrow> string) \<Rightarrow> (string \<rightharpoonup> string) \<Rightarrow> json \<Rightarrow> py_error + attack_path list" where
  "group_membership_rule rp m user =
     ebind (py_get_d user ''SamAccountName'' (JStr [])) (\<lambda>user_sam.
     ebind (lower_of user_sam) (\<lambda>low.
       if low = ''administrator'' then Inr []
       else if user_id_of rp user_sam \<in> dom m
       then ebind (get_member_of user) (\<lambda>member_of.
              if JStr ''Domain Admins'' \<in> set member_of
              then Inr [\<lparr> p_type = ''Group Membership'',
                          p_severity = (if JStr ''Protected Users'' \<in> set member_of
                                        then ''high'' else ''critical''),
                          p_path = [user_id_of rp user_sam, ''group_Domain Admins''] \<rparr>]
              else Inr [])
       else Inr []))"

text \<open>\<^verbatim>\<open>is_likely_service\<close>, given the lowered account name.\<close>

definition is_likely_service :: "string \<Rightarrow> json \<Rightarrow> py_error + bool" where
  "is_likely_service low user =
     (if py_startswith low ''svc_'' \<or> py_contains low ''service'' then Inr True
      else ebind (py_get_d user ''Description'' (JStr [])) (\<lambda>descr.
           ebind (lower_of descr) (\<lambda>d. Inr (py_contains d ''service''))))"

text \<open>
  \<^verbatim>\<open>', '.join(user.get('SPNs', [])[:3])\<close>: a string is sliced and joined character by
  character; a list must hold strings in its first three places; a dict cannot be
  sliced (a \<^verbatim>\<open>TypeError\<close> up to Python 3.11).
\<close>

fun spn_steps :: "json \<Rightarrow> py_error + string" where
  "spn_steps (JStr s) = Inr (py_join '', '' (map (\<lambda>c. [c]) (take 3 s)))"
| "spn_steps (JList xs) =
     (if list_all (\<lambda>x. case x of JStr _ \<Rightarrow> True | _ \<Rightarrow> False) (take 3 xs)
      then Inr (py_join '', '' (map (\<lambda>x. case x of JStr s \<Rightarrow> s | _ \<Rightarrow> []) (take 3 xs)))
      else Inl TypeError)"
| "spn_steps _ = Inl TypeError"

text \<open>Rule 2: Kerberoasting.\<close>

definition kerberoast_rule ::
  "(json \<Rightarrow> string) \<Rightarrow> (string \<rightharpoonup> string) \<Rightarrow> json \<Rightarrow> py_error + attack_path list" where
  "kerberoast_rule rp m user =
     ebind (py_get_d user ''SamAccountName'' (JStr [])) (\<lambda>user_sam.
     ebind (lower_of user_sam) (\<lambda>low.
       if low = ''krbtgt'' then Inr []
       else ebind (has_spns user) (\<lambda>s.
         if s \<and> user_id_of rp user_sam \<in> dom m
         then ebind (is_likely_service low user) (\<lambda>svc.
              ebind (py_get_d user ''SPNs'' (JList [])) (\<lambda>spns.
              ebind (spn_steps spns) (\<lambda>steps.
                Inr [\<lparr> p_type = ''Kerberoasting'',
                        p_severity = (if svc then ''medium'' else ''high''),
                        p_path = [user_id_of rp user_sam] \<rparr>])))
         else Inr [])))"

text \<open>Rule 3: delegation on the users that were added to the graph.\<close>

definition delegation_rule ::
  "(json \<Rightarrow> string) \<Rightarrow> (string \<rightharpoonup> string) \<Rightarrow> json \<Rightarrow> py_error + attack_path list" where
  "delegation_rule rp m user =
     ebind (has_delegation user) (\<lambda>d.
       if d
       then ebind (py_get user ''SamAccountName'') (\<lambda>sam.
              if user_id_of rp sam \<in> dom m
              then ebind (py_get user ''TrustedForDelegation'') (\<lambda>t.
                     Inr [\<lparr> p_type = (if truthy t then ''Unconstrained'' else ''Constrained'')
                                      @ '' Delegation'',
                             p_severity = ''high'',
                             p_path = [user_id_of rp sam] \<rparr>])
              else Inr [])
       else Inr [])"

definition excluded_accounts :: "string list" where
  "excluded_accounts = [''Administrator'', ''krbtgt'', ''Guest'']"

text \<open>Rule 4: AS-REP roasting.\<close>

definition asrep_rule ::
  "(json \<Rightarrow> string) \<Rightarrow> (string \<rightharpoonup> string) \<Rightarrow> json \<Rightarrow> py_error + attack_path list" where
  "asrep_rule rp m user =
     ebind (py_get_d user ''SamAccountName'' (JStr [])) (\<lambda>user_sam.
     ebind (lower_of user_sam) (\<lambda>low.
       if low \<in> set (map py_lower excluded_accounts) then Inr []
       else ebind (py_get user ''DoesNotRequirePreAuth'') (\<lambda>flag.
         if truthy flag \<and> user_id_of rp user_sam \<in> dom m
         then Inr [\<lparr> p_type = ''AS-REP Roasting'', p_severity = ''high'',
                     p_path = [user_id_of rp user_sam] \<rparr>]
         else Inr [])))"

text \<open>Rule 5: unconstrained delegation on a computer that is not a domain controller.\<close>

definition computer_rule ::
  "(json \<Rightarrow> string) \<Rightarrow> (string \<rightharpoonup> string) \<Rightarrow> json \<Rightarrow> py_error + attack_path list" where
  "computer_rule rp m computer =
     ebind (py_get computer ''TrustedForDelegation'') (\<lambda>t.
     ebind (py_get computer ''IsDomainController'') (\<lambda>dc.
       if truthy t \<and> \<not> truthy dc
       then ebind (py_get computer ''SamAccountName'') (\<lambda>sam.
              if comp_id_of rp sam \<in> dom m
              then ebind (py_get_d computer ''SamAccountName'' (JStr [])) (\<lambda>raw.
                   ebind (replace_dollar raw) (\<lambda>shown.
                     Inr [\<lparr> p_type = ''Unconstrained Delegation'',
                             p_severity = ''critical'',
                             p_path = [comp_id_of rp sam] \<rparr>]))
              else Inr [])
       else Inr []))"

text \<open>The five rules in order, on the finished graph.\<close>

definition detect_attack_paths ::
  "(json \<Rightarrow> string) \<Rightarrow> json \<Rightarrow> graph \<Rightarrow> py_error + attack_path list" where
  "detect_attack_paths rp data g =
     ebind (py_get_d data ''Users'' (JList [])) (\<lambda>users_v.
     ebind (py_iter users_v) (\<lambda>users.
     ebind (if ''group_Domain Admins'' \<in> dom (node_id_map g)
            then emit_e (group_membership_rule rp (node_id_map g)) users
            else Inr []) (\<lambda>r1.
     ebind (emit_e (kerberoast_rule rp (node_id_map g)) users) (\<lambda>r2.
     ebind (emit_e (delegation_rule rp (node_id_map g)) (high_risk_users g)) (\<lambda>r3.
     ebind (emit_e (asrep_rule rp (node_id_map g)) users) (\<lambda>r4.
     ebind (py_get_d data ''Computers'' (JList [])) (\<lambda>computers_v.
     ebind (py_iter computers_v) (\<lambda>computers.
     ebind (emit_e (computer_rule rp (node_id_map g)) computers) (\<lambda>r5.
       Inr (r1 @ r2 @ r3 @ r4 @ r5))))))))))"

text \<open>Marking the edges that lie on an attack path.\<close>

definition edge_key :: "string \<Rightarrow> string \<Rightarrow> string" where
  "edge_key a b = a @ ''_'' @ b"

definition path_edge_keys :: "string list \<Rightarrow> string list" where
  "path_edge_keys p = map (\<lambda>i. edge_key (p ! i) (p ! (i + 1))) [0 ..< length p - 1]"

definition attack_path_edge_ids :: "attack_path list \<Rightarrow> string set" where
  "attack_path_edge_ids paths = set (concat (map (\<lambda>p. path_edge_keys (p_path p)) paths))"

definition mark_edge :: "string set \<Rightarrow> edge \<Rightarrow> edge" where
  "mark_edge ids e =
     (if edge_key (e_from e) (e_to e) \<in> ids \<or> e_attackPath e
      then e\<lparr> e_attackPath := True, e_width := Some 3, e_color := ''#dc3545'' \<rparr>
      else e)"

text \<open>
  The analysis part of \<^verbatim>\<open>generate_graph_visualization\<close>: the node list, the edge
  list and the findings that the method then serialises into the report.
\<close>

definition generate_graph_visualization ::
  "(json \<Rightarrow> string) \<Rightarrow> json \<Rightarrow> py_error + (node list \<times> edge list \<times> attack_path list)" where
  "generate_graph_visualization rp data =
     ebind (build_graph rp data) (\<lambda>g.
     ebind (detect_attack_paths rp data g) (\<lambda>attack_paths.
       Inr (nodes g,
            map (mark_edge (attack_path_edge_ids attack_paths)) (edges g),
            attack_paths)))"

text \<open>The three parts of a result, for statements about one of them.\<close>

definition node_ids_of ::
  "py_error + (node list \<times> edge list \<times> attack_path list) \<Rightarrow> py_error + string list" where
  "node_ids_of r = (case r of Inl e \<Rightarrow> Inl e | Inr (ns, es, ps) \<Rightarrow> Inr (map n_id ns))"

definition edges_of ::
  "py_error + (node list \<times> edge list \<times> attack_path list) \<Rightarrow> py_error + edge list" where
  "edges_of r = (case r of Inl e \<Rightarrow> Inl e | Inr (ns, es, ps) \<Rightarrow> Inr es)"

definition findings_of ::
  "py_error + (node list \<times> edge list \<times> attack_path list)
   \<Rightarrow> py_error + attack_path list" where
  "findings_of r = (case r of Inl e \<Rightarrow> Inl e | Inr (ns, es, ps) \<Rightarrow> Inr ps)"

section \<open>Reference definitions and example snapshots\<close>

text \<open>The overall score and its label as the specification words them.\<close>

definition spec_normalized :: "risk_scores \<Rightarrow> rat" where
  "spec_normalized rs =
     min (of_int (kerberoasting rs + delegation rs + encryption rs
                  + ntlm rs + privileged rs + inactive rs) / 10) 100"

definition spec_label :: "rat \<Rightarrow> string" where
  "spec_label x =
     (if x < 30 then ''Low Risk'' else if x < 70 then ''Medium Risk'' else ''High Risk'')"

text \<open>The style class the method returns beside the label.\<close>

definition risk_class :: "rat \<Rightarrow> string" where
  "risk_class x =
     (if x < 30 then ''risk-low'' else if x < 70 then ''risk-medium'' else ''risk-high'')"

text \<open>Division by ten in integer arithmetic, rounding towards zero.\<close>

definition trunc_div10 :: "int \<Rightarrow> int" where
  "trunc_div10 t = (if 0 \<le> t then t div 10 else - ((- t) div 10))"

text \<open>The sections of a snapshot as the loops see them (empty when absent).\<close>

definition snapshot_users :: "json \<Rightarrow> json list" where
  "snapshot_users data =
     (case ebind (py_get_d data ''Users'' (JList [])) py_iter of
        Inr us \<Rightarrow> us | Inl _ \<Rightarrow> [])"

definition snapshot_groups :: "json \<Rightarrow> json list" where
  "snapshot_groups data =
     (case ebind (py_get_d data ''SecurityGroups'' (JList [])) py_iter of
        Inr gs \<Rightarrow> gs | Inl _ \<Rightarrow> [])"

definition snapshot_computers :: "json \<Rightarrow> json list" where
  "snapshot_computers data =
     (case ebind (py_get_d data ''Computers'' (JList [])) py_iter of
        Inr cs \<Rightarrow> cs | Inl _ \<Rightarrow> [])"

text \<open>
  Closed examples need some \<^verbatim>\<open>repr\<close>; none of them formats a list or a dict, so a
  constant text does.
\<close>

definition plain_repr :: "json \<Rightarrow> string" where
  "plain_repr v = ''<container>''"

definition svc_sql_snapshot :: json where
  "svc_sql_snapshot =
     JObj [(''Users'', JList [JObj [(''SamAccountName'', JStr ''svc_sql''),
                                    (''SPNs'', JList [JStr ''MSSQLSvc/host:1433''])]])]"

definition negative_ntlm_snapshot :: json where
  "negative_ntlm_snapshot = JObj [(''Statistics'', JObj [(''NTLMEventCount'', JInt (- 5))])]"

definition weak_user :: json where
  "weak_user = JObj [(''SamAccountName'', JStr ''bob''),
                     (''EncryptionTypes'', JList [JStr ''RC4''])]"

definition huge_negative_snapshot :: json where
  "huge_negative_snapshot =
     JObj [(''Users'', JList [weak_user]),
           (''Statistics'', JObj [(''NTLMEventCount'', JInt (- 50000000000000000))])]"

definition nameless_spn_user :: json where
  "nameless_spn_user = JObj [(''SPNs'', JList [JStr ''HTTP/web''])]"

definition nameless_spn_snapshot :: json where
  "nameless_spn_snapshot = JObj [(''Users'', JList [nameless_spn_user])]"

definition null_encryption_snapshot :: json where
  "null_encryption_snapshot =
     JObj [(''Users'', JList [JObj [(''SamAccountName'', JStr ''bob''),
                                    (''EncryptionTypes'', JNull)]])]"

definition null_description_snapshot :: json where
  "null_description_snapshot =
     JObj [(''Users'', JList [JObj [(''SamAccountName'', JStr ''bob''),
                                    (''SPNs'', JList [JStr ''HTTP/web'']),
                                    (''Description'', JNull)]])]"

text \<open>The name a record is formatted with when its node id is built.\<close>

definition account_name :: "(json \<Rightarrow> string) \<Rightarrow> json \<Rightarrow> string" where
  "account_name rp x =
     (case py_get x ''SamAccountName'' of Inr v \<Rightarrow> py_str rp v | Inl _ \<Rightarrow> [])"

definition group_name_of :: "(json \<Rightarrow> string) \<Rightarrow> json \<Rightarrow> string" where
  "group_name_of rp x =
     (case py_get_d x ''Name'' (JStr []) of Inr v \<Rightarrow> py_str rp v | Inl _ \<Rightarrow> [])"

definition ids :: "graph \<Rightarrow> string list" where
  "ids g = map n_id (nodes g)"

text \<open>One loop step either leaves the node list and the id map alone or adds the id \<open>k\<close>
  to both.\<close>

definition grows :: "string \<Rightarrow> graph \<Rightarrow> graph \<Rightarrow> bool" where
  "grows k g g' =
     ((ids g' = ids g \<and> node_id_map g' = node_id_map g)
      \<or> (ids g' = ids g @ [k] \<and> node_id_map g' = (node_id_map g)(k \<mapsto> k)))"

text \<open>
  The Kerberoasting rule as the specification words it: a user with at least one SPN
  whose account name is not "krbtgt" in any case.
\<close>

definition at_least_one_spn :: "json \<Rightarrow> bool" where
  "at_least_one_spn u =
     (case py_get u ''SPNs'' of Inr (JList xs) \<Rightarrow> xs \<noteq> [] | _ \<Rightarrow> False)"

definition named_krbtgt :: "json \<Rightarrow> bool" where
  "named_krbtgt u =
     (case py_get u ''SamAccountName'' of
        Inr (JStr s) \<Rightarrow> py_lower s = ''krbtgt''
      | _ \<Rightarrow> False)"

definition kerberoast_trigger :: "json \<Rightarrow> bool" where
  "kerberoast_trigger u = (at_least_one_spn u \<and> \<not> named_krbtgt u)"

text \<open>The SPNs field is absent, null or a list.\<close>

definition spns_listed :: "json \<Rightarrow> bool" where
  "spns_listed u =
     (case py_get u ''SPNs'' of
        Inr JNull \<Rightarrow> True
      | Inr (JList xs) \<Rightarrow> True
      | _ \<Rightarrow> False)"

definition spec_service_account :: "json \<Rightarrow> bool" where
  "spec_service_account u =
     (case py_get u ''SamAccountName'' of
        Inr (JStr s) \<Rightarrow>
          py_startswith (py_lower s) ''svc_'' \<or> py_contains (py_lower s) ''service''
          \<or> (case py_get_d u ''Description'' (JStr []) of
                Inr (JStr d) \<Rightarrow> py_contains (py_lower d) ''service''
              | _ \<Rightarrow> False)
      | _ \<Rightarrow> False)"

definition kerberoast_finding :: "(json \<Rightarrow> string) \<Rightarrow> json \<Rightarrow> attack_path" where
  "kerberoast_finding rp u =
     \<lparr> p_type = ''Kerberoasting'',
       p_severity = (if spec_service_account u then ''medium'' else ''high''),
       p_path = [''user_'' @ account_name rp u] \<rparr>"

text \<open>More example snapshots.\<close>

definition alice :: json where
  "alice = JObj [(''SamAccountName'', JStr ''alice''),
                 (''MemberOf'', JList [JStr ''Domain Admins''])]"

definition alice_only_snapshot :: json where
  "alice_only_snapshot = JObj [(''Users'', JList [alice])]"

definition domain_admins_group :: json where
  "domain_admins_group =
     JObj [(''Name'', JStr ''Domain Admins''),
           (''Members'', JList [JObj [(''SamAccountName'', JStr ''alice'')]])]"

definition alice_da_snapshot :: json where
  "alice_da_snapshot =
     JObj [(''Users'', JList [alice]), (''SecurityGroups'', JList [domain_admins_group])]"

definition bob_preauth_snapshot :: json where
  "bob_preauth_snapshot =
     JObj [(''Users'', JList [JObj [(''SamAccountName'', JStr ''bob''),
                                    (''DoesNotRequirePreAuth'', JBool True)]])]"

definition web :: json where
  "web = JObj [(''SamAccountName'', JStr ''web''), (''SPNs'', JList [JStr ''HTTP/web'']),
               (''DoesNotRequirePreAuth'', JBool True)]"

definition web_preauth_snapshot :: json where
  "web_preauth_snapshot = JObj [(''Users'', JList [web])]"

definition twin_snapshot :: json where
  "twin_snapshot =
     JObj [(''Users'', JList [JObj [(''SamAccountName'', JStr ''svc''),
                                    (''SPNs'', JList [JStr ''HTTP/a''])],
                              JObj [(''SamAccountName'', JStr ''svc''),
                                    (''SPNs'', JList [JStr ''HTTP/b''])]])]"

text \<open>
  Well-typed snapshots: every field the analysis reads is either absent or of the type
  the collector writes (null is accepted where the code tests the value for truth
  before using it).
\<close>

definition field_ok :: "(json \<Rightarrow> bool) \<Rightarrow> (string \<times> json) list \<Rightarrow> string \<Rightarrow> bool" where
  "field_ok P kvs k = (case map_of kvs k of None \<Rightarrow> True | Some v \<Rightarrow> P v)"

fun is_str :: "json \<Rightarrow> bool" where
  "is_str (JStr s) = True"
| "is_str _ = False"

fun is_obj :: "json \<Rightarrow> bool" where
  "is_obj (JObj kvs) = True"
| "is_obj _ = False"

fun is_list :: "json \<Rightarrow> bool" where
  "is_list (JList xs) = True"
| "is_list _ = False"

fun null_or_int :: "json \<Rightarrow> bool" where
  "null_or_int JNull = True"
| "null_or_int (JInt n) = True"
| "null_or_int _ = False"

fun null_or_list :: "json \<Rightarrow> bool" where
  "null_or_list JNull = True"
| "null_or_list (JList xs) = True"
| "null_or_list _ = False"

fun null_or_str_list :: "json \<Rightarrow> bool" where
  "null_or_str_list JNull = True"
| "null_or_str_list (JList xs) = list_all is_str xs"
| "null_or_str_list _ = False"

fun list_of :: "(json \<Rightarrow> bool) \<Rightarrow> json \<Rightarrow> bool" where
  "list_of P (JList xs) = list_all P xs"
| "list_of P _ = False"

fun wf_user :: "json \<Rightarrow> bool" where
  "wf_user (JObj kvs) =
     (field_ok is_str kvs ''SamAccountName''
      \<and> field_ok null_or_str_list kvs ''SPNs''
      \<and> field_ok is_list kvs ''EncryptionTypes''
      \<and> field_ok is_str kvs ''Description''
      \<and> field_ok null_or_int kvs ''DaysSinceLastLogon''
      \<and> field_ok null_or_int kvs ''DaysSincePasswordChange'')"
| "wf_user _ = False"

fun wf_computer :: "json \<Rightarrow> bool" where
  "wf_computer (JObj kvs) =
     (field_ok is_str kvs ''SamAccountName''
      \<and> field_ok null_or_list kvs ''ConstrainedDelegation'')"
| "wf_computer _ = False"

fun wf_group :: "json \<Rightarrow> bool" where
  "wf_group (JObj kvs) = field_ok (list_of is_obj) kvs ''Members''"
| "wf_group _ = False"

fun wf_statistics :: "json \<Rightarrow> bool" where
  "wf_statistics (JObj kvs) =
     field_ok (\<lambda>v. case v of JInt n \<Rightarrow> True | _ \<Rightarrow> False) kvs ''NTLMEventCount''"
| "wf_statistics _ = False"

fun wf_snapshot :: "json \<Rightarrow> bool" where
  "wf_snapshot (JObj kvs) =
     (field_ok (list_of wf_user) kvs ''Users''
      \<and> field_ok (list_of wf_computer) kvs ''Computers''
      \<and> field_ok (list_of wf_group) kvs ''SecurityGroups''
      \<and> field_ok wf_statistics kvs ''Statistics'')"
| "wf_snapshot _ = False"

section \<open>Basic facts about the error monad and the loops\<close>

lemma ebind_Inr [simp]: "ebind (Inr x) f = f x"
  by (simp add: ebind_def)

lemma ebind_Inl [simp]: "ebind (Inl e) f = Inl e"
  by (simp add: ebind_def)

lemmas graph_defs =
  build_graph_def domain_graph_def add_user_def add_group_def add_member_edge_def add_computer_def
  computer_in_graph_def add_delegation_edges_def add_delegates_to_def user_risk_def
  has_spns_def has_delegation_def in_group_def any_weak_enc_def get_member_of_def
  py_get_def user_id_of_def comp_id_of_def admin_groups_of_def privileged_groups_def
  Let_def

lemmas rule_defs =
  group_membership_rule_def kerberoast_rule_def delegation_rule_def asrep_rule_def
  computer_rule_def is_likely_service_def py_startswith_def
  has_spns_def has_delegation_def get_member_of_def py_get_def user_id_of_def
  comp_id_of_def

lemma py_lower_Nil [simp]: "py_lower [] = []"
  by (simp add: py_lower_def)

lemma lower_excluded:
  "map py_lower excluded_accounts = [''administrator'', ''krbtgt'', ''guest'']"
  by code_simp

lemma ebind_eq_Inr: "ebind m f = Inr y \<longleftrightarrow> (\<exists>x. m = Inr x \<and> f x = Inr y)"
  by (cases m) simp_all

lemma ebind_InrE:
  assumes "ebind m f = Inr y"
  obtains x where "m = Inr x" and "f x = Inr y"
  using assms by (auto simp: ebind_eq_Inr)

section \<open>The scoring engine\<close>

lemma svc_sql_scores:
  "calculate_risk_scores svc_sql_snapshot
   = Inr \<lparr> kerberoasting = 10, delegation = 0, encryption = 0, ntlm = 0,
           privileged = 0, inactive = 0 \<rparr>"
  by (simp add: svc_sql_snapshot_def calculate_risk_scores_def has_spns_def py_get_def
      has_delegation_def weak_encryption_def any_weak_enc_def in_group_def
      get_member_of_def days_over_def)

text \<open>
  C5.  A user record whose \<^verbatim>\<open>EncryptionTypes\<close> is null makes the scoring raise a
  \<^verbatim>\<open>TypeError\<close>, and a user with SPNs whose \<^verbatim>\<open>Description\<close> is null makes the
  attack-path detection raise an \<^verbatim>\<open>AttributeError\<close>: neither null is read as the
  neutral default.
\<close>

theorem null_field_raises:
  "calculate_risk_scores null_encryption_snapshot = Inl TypeError
   \<and> generate_graph_visualization plain_repr null_description_snapshot = Inl AttributeError"
proof -
  have bob: "py_lower ''bob'' = ''bob''" by code_simp
  have a: "calculate_risk_scores null_encryption_snapshot = Inl TypeError"
    by (simp add: null_encryption_snapshot_def calculate_risk_scores_def has_spns_def
        py_get_def has_delegation_def weak_encryption_def any_weak_enc_def)
  have g: "build_graph plain_repr null_description_snapshot
           = Inr \<lparr> nodes = [\<lparr> n_id = ''domain_DOMAIN'', n_label = JStr ''DOMAIN'',
                              n_type = ''domain'', n_group = ''domain'', n_risk = None,
                              n_spns = None \<rparr>,
                            \<lparr> n_id = ''user_bob'', n_label = JStr ''bob'', n_type = ''user'',
                              n_group = ''user'', n_risk = Some ''high'',
                              n_spns = Some 1 \<rparr>],
                   edges = [simple_edge ''domain_DOMAIN'' ''user_bob'' ''Member''],
                   node_id_map = [''domain_DOMAIN'' \<mapsto> ''domain_DOMAIN'',
                                  ''user_bob'' \<mapsto> ''user_bob''],
                   high_risk_users = [JObj [(''SamAccountName'', JStr ''bob''),
                                            (''SPNs'', JList [JStr ''HTTP/web'']),
                                            (''Description'', JNull)]] \<rparr>"
    by (simp add: null_description_snapshot_def graph_defs)
  have k: "kerberoast_rule plain_repr
             [''domain_DOMAIN'' \<mapsto> ''domain_DOMAIN'', ''user_bob'' \<mapsto> ''user_bob'']
             (JObj [(''SamAccountName'', JStr ''bob''), (''SPNs'', JList [JStr ''HTTP/web'']),
                    (''Description'', JNull)]) = Inl AttributeError"
    by (simp add: rule_defs bob)
  have b: "generate_graph_visualization plain_repr null_description_snapshot
           = Inl AttributeError"
    unfolding generate_graph_visualization_def g
    by (simp add: detect_attack_paths_def null_description_snapshot_def k)
  show ?thesis using a b by simp
qed

section \<open>The overall score\<close>

lemma bit_length_le: "n < 2 ^ k \<Longrightarrow> bit_length n \<le> k"
proof (induction k arbitrary: n)
  case 0
  then show ?case by (simp add: bit_length.simps)
next
  case (Suc k)
  show ?case
  proof (cases "n \<le> 0")
    case True
    then show ?thesis by (simp add: bit_length.simps)
  next
    case False
    have "n div 2 < 2 ^ k" using Suc.prems by simp
    then have "bit_length (n div 2) \<le> k" by (rule Suc.IH)
    then show ?thesis using False by (simp add: bit_length.simps [of n])
  qed
qed

lemma bit_length_ge: "0 < n \<Longrightarrow> 2 ^ bit_length n \<le> 2 * n"
proof (induction n rule: bit_length.induct)
  case (1 n)
  have bl: "bit_length n = Suc (bit_length (n div 2))"
    using "1.prems" by (simp add: bit_length.simps [of n])
  show ?case
  proof (cases "0 < n div 2")
    case True
    have "2 ^ bit_length (n div 2) \<le> 2 * (n div 2)"
      using "1.IH" "1.prems" True by simp
    also have "2 * (n div 2) \<le> n" by simp
    finally show ?thesis by (simp add: bl)
  next
    case False
    then have "n = 1" using "1.prems" by presburger
    then show ?thesis by (simp add: bit_length.simps)
  qed
qed

lemma bit_length_gt: "n < 2 ^ bit_length n"
proof (induction n rule: bit_length.induct)
  case (1 n)
  show ?case
  proof (cases "n \<le> 0")
    case True
    then show ?thesis by (simp add: bit_length.simps)
  next
    case False
    have "n div 2 < 2 ^ bit_length (n div 2)" using "1.IH" False by simp
    then have "n < 2 * 2 ^ bit_length (n div 2)" by presburger
    then show ?thesis using False by (simp add: bit_length.simps [of n])
  qed
qed

lemma round_half_even_div_bounds:
  assumes "0 < d"
  shows "n div d \<le> round_half_even_div n d"
    and "2 * d * round_half_even_div n d \<le> 2 * n + d"
proof -
  define q where "q = n div d"
  define m where "m = n mod d"
  have n: "n = d * q + m" by (simp add: q_def m_def)
  have m0: "0 \<le> m" using assms by (simp add: m_def)
  have cases: "round_half_even_div n d = q \<or> (round_half_even_div n d = q + 1 \<and> d \<le> 2 * m)"
    by (simp add: round_half_even_div_def Let_def q_def m_def)
  show "n div d \<le> round_half_even_div n d"
    using cases by (auto simp: q_def)
  have a: "2 * (d * q) \<le> 2 * n + d" using n m0 assms by linarith
  have b: "d \<le> 2 * m \<Longrightarrow> 2 * (d * q) + 2 * d \<le> 2 * n + d" using n by linarith
  show "2 * d * round_half_even_div n d \<le> 2 * n + d"
    using cases
  proof (elim disjE conjE)
    assume 1: "round_half_even_div n d = q"
    show ?thesis using a by (simp add: 1)
  next
    assume 2: "round_half_even_div n d = q + 1" "d \<le> 2 * m"
    show ?thesis using b [OF 2(2)] by (simp add: 2(1) algebra_simps)
  qed
qed

lemma py_truediv10_pos:
  assumes "0 < t" and "e = int (bit_length (t * 16 div 10)) - 5" and "e \<le> 52"
      and "v = of_int (round_half_even_div (t * 2 ^ nat (52 - e)) 10) / 2 ^ nat (52 - e)"
      and "v < 2 ^ 1024"
  shows "py_truediv10 t = Inr v"
proof -
  have a: "\<bar>t\<bar> = t" and n: "t \<noteq> 0" and p: "\<not> t < 0" using assms(1) by simp_all
  have o: "\<not> (2 :: rat) ^ 1024 \<le> v" using assms(5) by simp
  show ?thesis
    unfolding py_truediv10_def Let_def a assms(2) [symmetric] assms(4) [symmetric]
    using n p o assms(3) by simp
qed

lemma py_truediv10_big:
  assumes "0 < t" and "e = int (bit_length (t * 16 div 10)) - 5" and "\<not> e \<le> 52"
      and "v = of_int (round_half_even_div t (10 * 2 ^ nat (e - 52)) * 2 ^ nat (e - 52))"
      and "v < 2 ^ 1024"
  shows "py_truediv10 t = Inr v"
proof -
  have a: "\<bar>t\<bar> = t" and n: "t \<noteq> 0" and p: "\<not> t < 0" using assms(1) by simp_all
  have o: "\<not> (2 :: rat) ^ 1024 \<le> v" using assms(5) by simp
  show ?thesis
    unfolding py_truediv10_def Let_def a assms(2) [symmetric] assms(4) [symmetric]
    using n p o assms(3) by simp
qed

lemma py_truediv10_big_overflow:
  assumes "0 < t" and "e = int (bit_length (t * 16 div 10)) - 5" and "\<not> e \<le> 52"
      and "v = of_int (round_half_even_div t (10 * 2 ^ nat (e - 52)) * 2 ^ nat (e - 52))"
      and "2 ^ 1024 \<le> (v :: rat)"
  shows "py_truediv10 t = Inl OverflowError"
proof -
  have a: "\<bar>t\<bar> = t" and n: "t \<noteq> 0" using assms(1) by simp_all
  show ?thesis
    unfolding py_truediv10_def Let_def a assms(2) [symmetric] assms(4) [symmetric]
    using n assms(3) assms(5) by simp
qed

lemma truediv10_small:
  assumes pos: "0 < t" and small: "t < 10 * 2 ^ 50"
  shows "\<exists>v. py_truediv10 t = Inr v \<and> of_int (t div 10) \<le> v \<and> v < of_int (t div 10) + 1"
proof -
  define e where "e = int (bit_length (t * 16 div 10)) - 5"
  define k where "k = nat (52 - e)"
  define Q where "Q = (2 :: int) ^ k"
  define m where "m = round_half_even_div (t * Q) 10"
  define n0 where "n0 = t div 10"
  define v where "v = (of_int m :: rat) / of_int Q"
  have "t * 16 div 10 < 2 ^ 54" using small by simp
  then have "bit_length (t * 16 div 10) \<le> 54" by (rule bit_length_le)
  then have e49: "e \<le> 49" by (simp add: e_def)
  then have k3: "3 \<le> k" by (simp add: k_def)
  have "(2 :: int) ^ 3 \<le> 2 ^ k" using k3 by (intro power_increasing) simp_all
  then have Q8: "8 \<le> Q" by (simp add: Q_def)
  have Qpos: "0 < Q" using Q8 by simp
  have b1: "(t * Q) div 10 \<le> m" and b2: "2 * 10 * m \<le> 2 * (t * Q) + 10"
    unfolding m_def by (rule round_half_even_div_bounds, simp)+
  have t_lo: "10 * n0 \<le> t" and t_hi: "t \<le> 10 * n0 + 9"
    unfolding n0_def by presburger+
  have "10 * (n0 * Q) \<le> t * Q"
    using mult_right_mono [OF t_lo, of Q] Qpos by (simp add: algebra_simps)
  then have "(10 * (n0 * Q)) div 10 \<le> (t * Q) div 10" by (intro zdiv_mono1) simp_all
  then have lo: "n0 * Q \<le> m" using b1 by simp
  have "t * Q \<le> (10 * n0 + 9) * Q"
    using mult_right_mono [OF t_hi, of Q] Qpos by simp
  then have "t * Q \<le> 10 * (n0 * Q) + 9 * Q" by (simp add: algebra_simps)
  then have "20 * m < 20 * (n0 * Q) + 20 * Q" using b2 Q8 by linarith
  then have hi: "m < (n0 + 1) * Q" by (simp add: algebra_simps)
  have rQ: "(0 :: rat) < of_int Q" using Qpos by simp
  have "(of_int (n0 * Q) :: rat) \<le> of_int m" using lo by (simp only: of_int_le_iff)
  then have vlo: "of_int n0 \<le> v"
    unfolding v_def using rQ by (simp add: pos_le_divide_eq)
  have "(of_int m :: rat) < of_int ((n0 + 1) * Q)" using hi by (simp only: of_int_less_iff)
  then have vhi: "v < of_int n0 + 1"
    unfolding v_def using rQ by (simp add: pos_divide_less_eq)
  have "n0 < 2 ^ 50" unfolding n0_def using small by simp
  then have "n0 + 1 \<le> 2 ^ 50" by simp
  then have "(of_int (n0 + 1) :: rat) \<le> of_int (2 ^ 50)" by (simp only: of_int_le_iff)
  then have "(of_int n0 :: rat) + 1 \<le> 2 ^ 50" by simp
  moreover have "(2 :: rat) ^ 50 \<le> 2 ^ 1024" by (intro power_increasing) simp_all
  ultimately have nov: "v < 2 ^ 1024" using vhi by linarith
  have vq: "v = of_int (round_half_even_div (t * 2 ^ nat (52 - e)) 10) / 2 ^ nat (52 - e)"
    by (simp add: v_def m_def Q_def k_def)
  have "py_truediv10 t = Inr v"
    by (rule py_truediv10_pos [OF pos e_def _ vq nov]) (use e49 in simp)
  then show ?thesis using vlo vhi by (auto simp: n0_def)
qed


lemma truediv10_nonneg:
  assumes "0 \<le> t" and "t < 10 * 2 ^ 50"
  shows "\<exists>v. py_truediv10 t = Inr v \<and> of_int (t div 10) \<le> v \<and> v < of_int (t div 10) + 1"
proof (cases "t = 0")
  case True
  then show ?thesis by (simp add: py_truediv10_def)
next
  case False
  then have "0 < t" using assms(1) by simp
  then show ?thesis using assms(2) by (rule truediv10_small)
qed

lemma truediv10_large:
  assumes big: "1000 \<le> t" and bound: "t < 10 * 2 ^ 1023"
  shows "\<exists>v. py_truediv10 t = Inr v \<and> 100 \<le> v"
proof -
  have pos: "0 < t" using big by simp
  define B where "B = (2 :: int) ^ 1023"
  have Bpos: "1 \<le> B" unfolding B_def by (rule one_le_power) simp
  have B2: "(2 :: int) ^ 1024 = 2 * B" unfolding B_def by (simp only: power_Suc [symmetric]) simp
  have tB: "t < 10 * B" using bound by (simp only: B_def)
  define s where "s = t * 16 div 10"
  define e where "e = int (bit_length s) - 5"
  show ?thesis
  proof (cases "e \<le> 52")
    case True
    define Q where "Q = (2 :: int) ^ nat (52 - e)"
    define m where "m = round_half_even_div (t * Q) 10"
    define v where "v = (of_int m :: rat) / of_int Q"
    have Qpos: "0 < Q" by (simp add: Q_def)
    have b1: "(t * Q) div 10 \<le> m" and b2: "2 * 10 * m \<le> 2 * (t * Q) + 10"
      unfolding m_def by (rule round_half_even_div_bounds, simp)+
    have "10 * (100 * Q) \<le> t * Q"
      using mult_right_mono [OF big, of Q] Qpos by simp
    then have "(10 * (100 * Q)) div 10 \<le> (t * Q) div 10" by (intro zdiv_mono1) simp_all
    then have lo: "100 * Q \<le> m" using b1 by simp
    have rQ: "(0 :: rat) < of_int Q" using Qpos by simp
    have "(of_int (100 * Q) :: rat) \<le> of_int m" using lo by (simp only: of_int_le_iff)
    then have vlo: "100 \<le> v" unfolding v_def using rQ by (simp add: pos_le_divide_eq)
    have "t + 1 \<le> 10 * B" using tB by simp
    then have "(t + 1) * Q \<le> (10 * B) * Q" using Qpos by (intro mult_right_mono) simp_all
    then have "t * Q + Q \<le> 10 * (B * Q)" by (simp add: algebra_simps)
    moreover have "1 \<le> Q" using Qpos by simp
    moreover have "1 * 1 \<le> B * Q" using Bpos Qpos by (intro mult_mono) simp_all
    ultimately have "20 * m < 20 * (2 * (B * Q))" using b2 by linarith
    then have "m < 2 * B * Q" by simp
    then have hi: "m < 2 ^ 1024 * Q" by (simp only: B2)
    have "(of_int m :: rat) < of_int (2 ^ 1024 * Q)" using hi by (simp only: of_int_less_iff)
    then have "(of_int m :: rat) < 2 ^ 1024 * of_int Q" by (simp only: of_int_mult of_int_power of_int_numeral)
    then have nov: "v < 2 ^ 1024" unfolding v_def using rQ by (simp only: pos_divide_less_eq)
    have vq: "v = of_int (round_half_even_div (t * 2 ^ nat (52 - e)) 10) / 2 ^ nat (52 - e)"
      by (simp add: v_def m_def Q_def)
    have "py_truediv10 t = Inr v"
      by (rule py_truediv10_pos [OF pos _ True vq nov]) (simp add: e_def s_def)
    then show ?thesis using vlo by blast
  next
    case False
    define k where "k = nat (e - 52)"
    define q where "q = (2 :: int) ^ k"
    define m where "m = round_half_even_div t (10 * q)"
    define v where "v = (of_int (m * q) :: rat)"
    have qpos: "0 < q" by (simp add: q_def)
    have b1: "t div (10 * q) \<le> m" and b2: "2 * (10 * q) * m \<le> 2 * t + 10 * q"
      unfolding m_def using qpos by (rule_tac [!] round_half_even_div_bounds) simp_all
    have spos: "0 < s" unfolding s_def using big by simp
    have L: "bit_length s = nat (e + 5)" by (simp add: e_def)
    have e5: "nat (e + 5) = 57 + k" using False by (simp add: k_def)
    have "2 ^ bit_length s \<le> 2 * s" by (rule bit_length_ge [OF spos])
    then have "(2 :: int) ^ 57 * q \<le> 2 * s" by (simp add: L e5 power_add q_def)
    moreover have "10 * s \<le> 16 * t" unfolding s_def by presburger
    ultimately have tq: "10 * (2 ^ 52 * q) \<le> t" by simp
    then have "(10 * q * 2 ^ 52) div (10 * q) \<le> t div (10 * q)"
      using qpos by (intro zdiv_mono1) (simp_all add: algebra_simps)
    then have m52: "2 ^ 52 \<le> m" using b1 qpos by simp
    have "2 ^ 52 * 1 \<le> m * q"
      using m52 qpos by (intro mult_mono) simp_all
    then have "100 \<le> m * q" by simp
    then have "(of_int 100 :: rat) \<le> of_int (m * q)" by (simp only: of_int_le_iff)
    then have vlo: "100 \<le> v" by (simp add: v_def)
    have "10 * q \<le> t" using tq qpos by simp
    moreover have "20 * (m * q) = 2 * (10 * q) * m" by simp
    ultimately have "20 * (m * q) \<le> 4 * t" using b2 qpos by linarith
    then have "m * q < 2 * B" using tB by linarith
    then have "m * q < 2 ^ 1024" by (simp only: B2)
    then have "(of_int (m * q) :: rat) < of_int (2 ^ 1024)" by (simp only: of_int_less_iff)
    then have nov: "v < 2 ^ 1024" by (simp only: v_def of_int_power of_int_numeral)
    have vq: "v = of_int (round_half_even_div t (10 * 2 ^ nat (e - 52)) * 2 ^ nat (e - 52))"
      by (simp add: v_def m_def q_def k_def)
    have "py_truediv10 t = Inr v"
      by (rule py_truediv10_big [OF pos _ False vq nov]) (simp add: e_def s_def)
    then show ?thesis using vlo by blast
  qed
qed

lemma truediv10_overflow:
  assumes huge: "10 * 2 ^ 1024 \<le> t"
  shows "py_truediv10 t = Inl OverflowError"
proof -
  define B where "B = (2 :: int) ^ 1024"
  have Bpos: "1 \<le> B" unfolding B_def by (rule one_le_power) simp
  have tB: "10 * B \<le> t" using huge by (simp only: B_def)
  have pos: "0 < t" using tB Bpos by linarith
  define s where "s = t * 16 div 10"
  define e where "e = int (bit_length s) - 5"
  have "10 * (16 * B) \<le> t * 16" using tB by simp
  then have "(10 * (16 * B)) div 10 \<le> (t * 16) div 10" by (intro zdiv_mono1) simp_all
  then have "16 * B \<le> s" by (simp add: s_def)
  moreover have "16 * B = 2 ^ 1028" unfolding B_def by simp
  ultimately have "(2 :: int) ^ 1028 \<le> s" by simp
  also have "s < 2 ^ bit_length s" by (rule bit_length_gt)
  finally have "(2 :: int) ^ 1028 < 2 ^ bit_length s" .
  then have "1028 < bit_length s" by (rule power_less_imp_less_exp [rotated]) simp
  then have e1024: "1024 \<le> e" by (simp add: e_def)
  then have big: "\<not> e \<le> 52" by simp
  define k where "k = nat (e - 52)"
  define q where "q = (2 :: int) ^ k"
  define m where "m = round_half_even_div t (10 * q)"
  define v where "v = (of_int (m * q) :: rat)"
  have qpos: "0 < q" by (simp add: q_def)
  have b1: "t div (10 * q) \<le> m"
    unfolding m_def using qpos by (intro round_half_even_div_bounds) simp
  have spos: "0 < s" unfolding s_def using pos by simp
  have L: "bit_length s = nat (e + 5)" by (simp add: e_def)
  have e5: "nat (e + 5) = 57 + k" using big by (simp add: k_def)
  have "2 ^ bit_length s \<le> 2 * s" by (rule bit_length_ge [OF spos])
  then have "(2 :: int) ^ 57 * q \<le> 2 * s" by (simp add: L e5 power_add q_def)
  moreover have "10 * s \<le> 16 * t" unfolding s_def by presburger
  ultimately have tq: "10 * (2 ^ 52 * q) \<le> t" by simp
  then have "(10 * q * 2 ^ 52) div (10 * q) \<le> t div (10 * q)"
    using qpos by (intro zdiv_mono1) (simp_all add: algebra_simps)
  then have m52: "2 ^ 52 \<le> m" using b1 qpos by simp
  have "(2 :: int) ^ 1024 \<le> 2 ^ (52 + k)"
    using e1024 by (intro power_increasing) (simp_all add: k_def)
  also have "(2 :: int) ^ (52 + k) = 2 ^ 52 * q" by (simp only: power_add q_def)
  also have "2 ^ 52 * q \<le> m * q" using m52 qpos by (intro mult_right_mono) simp_all
  finally have "(of_int (2 ^ 1024) :: rat) \<le> of_int (m * q)" by (simp only: of_int_le_iff)
  then have ov: "2 ^ 1024 \<le> v" by (simp only: v_def of_int_power of_int_numeral)
  have vq: "v = of_int (round_half_even_div t (10 * 2 ^ nat (e - 52)) * 2 ^ nat (e - 52))"
    by (simp add: v_def m_def q_def k_def)
  show ?thesis
    by (rule py_truediv10_big_overflow [OF pos _ big vq ov]) (simp add: e_def s_def)
qed

lemma exact_tenth_bounds:
  "(of_int (t div 10) :: rat) \<le> of_int t / 10 \<and> (of_int t :: rat) / 10 < of_int (t div 10) + 1"
proof -
  have "\<lfloor>(of_int t :: rat) / of_int 10\<rfloor> = t div 10" by (rule floor_divide_of_int_eq)
  then have "\<lfloor>(of_int t :: rat) / 10\<rfloor> = t div 10" by simp
  then show ?thesis by (simp add: floor_eq_iff)
qed

lemma score_from_quotient:
  assumes lo: "of_int n \<le> (q :: rat)" and hi: "q < of_int n + 1" and n0: "0 \<le> n"
  shows "py_int (min q 100) = (if 100 \<le> n then 100 else n)"
    and "(min q 100 < 30) = (n < 30)"
    and "(min q 100 < 70) = (n < 70)"
proof -
  have fl: "\<lfloor>q\<rfloor> = n" using lo hi by (simp add: floor_eq_iff)
  have q0: "0 \<le> q" using lo n0 by (meson of_int_0_le_iff order_trans)
  have cmp: "(q < of_int k) = (n < k)" for k :: int
  proof
    assume "q < of_int k"
    then have "(of_int n :: rat) < of_int k" using lo by linarith
    then show "n < k" by (simp only: of_int_less_iff)
  next
    assume "n < k"
    then have "n + 1 \<le> k" by simp
    then have "(of_int (n + 1) :: rat) \<le> of_int k" by (simp only: of_int_le_iff)
    then show "q < of_int k" using hi by simp
  qed
  have c100: "(q < 100) = (n < 100)" using cmp [of 100] by simp
  have c30: "(q < 30) = (n < 30)" using cmp [of 30] by simp
  have c70: "(q < 70) = (n < 70)" using cmp [of 70] by simp
  show "py_int (min q 100) = (if 100 \<le> n then 100 else n)"
  proof (cases "n < 100")
    case True
    then have "min q 100 = q" using c100 by (simp add: min_def)
    then show ?thesis using True fl q0 by (simp add: py_int_def)
  next
    case False
    then have "min q 100 = 100" using c100 by (simp add: min_def)
    then show ?thesis using False by (simp add: py_int_def)
  qed
  show "(min q 100 < 30) = (n < 30)" using c30 by (simp add: min_less_iff_disj)
  show "(min q 100 < 70) = (n < 70)" using c70 by (simp add: min_less_iff_disj)
qed

lemma spec_normalized_total:
  "spec_normalized rs = min (of_int (total_score rs) / 10) 100"
  by (simp add: spec_normalized_def total_score_def)

text \<open>
  C1 (amended).  For every set of six integer category scores whose sum \<open>\<Sigma>\<close> satisfies
  \<open>0 \<le> \<Sigma> < 10 * 2 ^ 1023\<close>, the method returns \<open>min (\<Sigma> / 10) 100\<close> truncated to an
  integer (\<open>\<Sigma> div 10\<close> below a sum of 1000, and 100 from there on) and the label "Low Risk"
  when the normalized value is below 30, "Medium Risk" when it is below 70 and "High
  Risk" otherwise.  The quotient is a double: from a sum of \<open>10 * 2 ^ 1024\<close> on the division
  raises (\<open>truediv10_overflow\<close>), and for a large negative sum the rounding of the quotient
  changes the truncated score.
\<close>

theorem overall_score_formula:
  assumes "0 \<le> total_score rs" and "total_score rs < 10 * 2 ^ 1023"
  shows "get_overall_risk_score rs
           = Inr (py_int (spec_normalized rs), risk_class (spec_normalized rs),
                  spec_label (spec_normalized rs))
         \<and> py_int (spec_normalized rs)
             = (if 1000 \<le> total_score rs then 100 else total_score rs div 10)"
proof (cases "total_score rs < 1000")
  case True
  define t where "t = total_score rs"
  define n where "n = t div 10"
  have n0: "0 \<le> n" using assms(1) by (simp add: n_def t_def)
  have small: "total_score rs < 10 * 2 ^ 50" using True by simp
  from truediv10_nonneg [OF assms(1) small] obtain v where
    v: "py_truediv10 t = Inr v" and vlo: "of_int n \<le> v" and vhi: "v < of_int n + 1"
    unfolding t_def n_def by blast
  have xlo: "(of_int n :: rat) \<le> of_int t / 10" and xhi: "(of_int t :: rat) / 10 < of_int n + 1"
    unfolding n_def using exact_tenth_bounds [of t] by simp_all
  note code = score_from_quotient [OF vlo vhi n0]
  note spec = score_from_quotient [OF xlo xhi n0]
  have sn: "spec_normalized rs = min (of_int t / 10) 100"
    by (simp add: spec_normalized_total t_def)
  have a: "get_overall_risk_score rs
           = Inr (py_int (spec_normalized rs), risk_class (spec_normalized rs),
                  spec_label (spec_normalized rs))"
    unfolding get_overall_risk_score_def Let_def t_def [symmetric] v sn
    by (simp add: code spec risk_class_def spec_label_def)
  have "(100 \<le> n) = (1000 \<le> t)" unfolding n_def by presburger
  then have b: "py_int (spec_normalized rs) = (if 1000 \<le> t then 100 else t div 10)"
    unfolding sn by (simp add: spec n_def)
  show ?thesis using a b by (simp add: t_def)
next
  case False
  define t where "t = total_score rs"
  have big: "1000 \<le> t" using False by (simp add: t_def)
  from truediv10_large [OF big] assms(2) obtain v where
    v: "py_truediv10 t = Inr v" and vlo: "100 \<le> v"
    unfolding t_def by blast
  have cm: "min v 100 = 100" using vlo by (simp add: min_def)
  have "(of_int 1000 :: rat) \<le> of_int t" using big by (simp only: of_int_le_iff)
  then have "(100 :: rat) \<le> of_int t / 10" by simp
  then have "min (of_int t / 10) (100 :: rat) = 100" by (simp add: min_def)
  then have sn: "spec_normalized rs = 100"
    by (simp add: spec_normalized_total t_def)
  have a: "get_overall_risk_score rs
           = Inr (py_int (spec_normalized rs), risk_class (spec_normalized rs),
                  spec_label (spec_normalized rs))"
    unfolding get_overall_risk_score_def Let_def t_def [symmetric] v sn
    by (simp add: cm risk_class_def spec_label_def)
  have b: "py_int (spec_normalized rs) = 100" unfolding sn by (simp add: py_int_def)
  show ?thesis using a b big by (simp add: t_def)
qed


theorem overall_score_formula_witness:
  "0 \<le> total_score \<lparr> kerberoasting = 10, delegation = 0, encryption = 0, ntlm = 0,
                        privileged = 0, inactive = 36 \<rparr>
   \<and> total_score \<lparr> kerberoasting = 10, delegation = 0, encryption = 0, ntlm = 0,
                     privileged = 0, inactive = 36 \<rparr> < 10 * 2 ^ 1023
   \<and> get_overall_risk_score \<lparr> kerberoasting = 10, delegation = 0, encryption = 0, ntlm = 0,
                               privileged = 0, inactive = 36 \<rparr>
       = Inr (4, ''risk-low'', ''Low Risk'')"
proof -
  let ?rs = "\<lparr> kerberoasting = 10, delegation = 0, encryption = 0, ntlm = 0,
               privileged = 0, inactive = 36 \<rparr>"
  have t: "total_score ?rs = 46" by (simp add: total_score_def)
  have a: "0 \<le> total_score ?rs" and b: "total_score ?rs < 10 * 2 ^ 1023" by (simp_all add: t)
  have n: "spec_normalized ?rs = 23 / 5" by (simp add: spec_normalized_def)
  show ?thesis
    using overall_score_formula [OF a b] a b
    by (simp add: t n risk_class_def spec_label_def)
qed

lemma py_int_tenth: "py_int (of_int t / 10) = trunc_div10 t"
proof (cases "0 \<le> t")
  case True
  then have "(0::rat) \<le> of_int t / 10" by simp
  moreover have "\<lfloor>(of_int t / 10 :: rat)\<rfloor> = t div 10"
    using floor_divide_of_int_eq [of t 10, where ?'a = rat] by simp
  ultimately show ?thesis using True by (simp add: py_int_def trunc_div10_def)
next
  case False
  then have neg: "\<not> (0::rat) \<le> of_int t / 10" by simp
  have "\<lceil>(of_int t / 10 :: rat)\<rceil> = - \<lfloor>(of_int (- t) / 10 :: rat)\<rfloor>"
    by (simp add: ceiling_def)
  also have "\<lfloor>(of_int (- t) / 10 :: rat)\<rfloor> = (- t) div 10"
    using floor_divide_of_int_eq [of "- t" 10, where ?'a = rat] by simp
  finally show ?thesis using False neg by (simp add: py_int_def trunc_div10_def)
qed

lemma py_int_of_int: "py_int (of_int k) = k"
  by (simp add: py_int_def)

lemma huge_negative_scores:
  "calculate_risk_scores huge_negative_snapshot
   = Inr \<lparr> kerberoasting = 0, delegation = 0, encryption = 5,
           ntlm = - 100000000000000000, privileged = 0, inactive = 0 \<rparr>"
  by (simp add: huge_negative_snapshot_def weak_user_def calculate_risk_scores_def has_spns_def
      py_get_def has_delegation_def weak_encryption_def any_weak_enc_def in_group_def
      get_member_of_def days_over_def)

theorem overall_score_formula_counterexample:
  "calculate_risk_scores huge_negative_snapshot
     = Inr \<lparr> kerberoasting = 0, delegation = 0, encryption = 5,
             ntlm = - 100000000000000000, privileged = 0, inactive = 0 \<rparr>
   \<and> get_overall_risk_score \<lparr> kerberoasting = 0, delegation = 0, encryption = 5,
                               ntlm = - 100000000000000000, privileged = 0, inactive = 0 \<rparr>
       = Inr (- 10000000000000000, ''risk-low'', ''Low Risk'')
   \<and> py_int (spec_normalized \<lparr> kerberoasting = 0, delegation = 0, encryption = 5,
                                 ntlm = - 100000000000000000, privileged = 0,
                                 inactive = 0 \<rparr>)
       = - 9999999999999999"
proof -
  let ?rs = "\<lparr> kerberoasting = 0, delegation = 0, encryption = 5,
               ntlm = - 100000000000000000, privileged = 0, inactive = 0 \<rparr>"
  have t: "total_score ?rs = - 99999999999999995" by (simp add: total_score_def)
  have q: "py_truediv10 (- 99999999999999995) = Inr (- 10000000000000000)"
    by (simp add: py_truediv10_def bit_length.simps round_half_even_div_def Let_def)
  have g: "get_overall_risk_score ?rs = Inr (- 10000000000000000, ''risk-low'', ''Low Risk'')"
    unfolding get_overall_risk_score_def t q by (simp add: py_int_def)
  have "spec_normalized ?rs = of_int (- 99999999999999995) / 10"
    by (simp add: spec_normalized_def)
  then have s: "py_int (spec_normalized ?rs) = - 9999999999999999"
    by (simp only: py_int_tenth) (simp add: trunc_div10_def)
  show ?thesis using huge_negative_scores g s by simp
qed

section \<open>Loops and the graph builder\<close>

lemma fold_e_invariant:
  "fold_e f xs s = Inr s' \<Longrightarrow> P s
   \<Longrightarrow> (\<And>x a b. x \<in> set xs \<Longrightarrow> P a \<Longrightarrow> f x a = Inr b \<Longrightarrow> P b) \<Longrightarrow> P s'"
proof (induction xs arbitrary: s)
  case Nil
  then show ?case by simp
next
  case (Cons x xs)
  from Cons.prems(1) obtain t where t: "f x s = Inr t" and r: "fold_e f xs t = Inr s'"
    by (auto simp: ebind_eq_Inr)
  have "P t" by (rule Cons.prems(3) [OF _ Cons.prems(2) t]) simp
  then show ?case
  proof (rule Cons.IH [OF r])
    fix y a b
    assume "y \<in> set xs" and "P a" and "f y a = Inr b"
    then show "P b" using Cons.prems(3) [of y a b] by simp
  qed
qed

lemma fold_e_visits:
  assumes mono: "\<And>y a b. f y a = Inr b \<Longrightarrow> R a b"
      and refl: "\<And>a. R a a" and trans: "\<And>a b c. R a b \<Longrightarrow> R b c \<Longrightarrow> R a c"
  shows "fold_e f xs s = Inr s' \<Longrightarrow> x \<in> set xs
         \<Longrightarrow> \<exists>a b. f x a = Inr b \<and> R s a \<and> R b s'"
proof (induction xs arbitrary: s)
  case Nil
  then show ?case by simp
next
  case (Cons y ys)
  from Cons.prems(1) obtain t where t: "f y s = Inr t" and r: "fold_e f ys t = Inr s'"
    by (auto simp: ebind_eq_Inr)
  have rt: "R t s'"
    using r by (rule fold_e_invariant [where P = "\<lambda>u. R t u"]) (auto intro: refl trans mono)
  show ?case
  proof (cases "x = y")
    case True
    then show ?thesis using t rt refl by blast
  next
    case False
    then have "x \<in> set ys" using Cons.prems(2) by simp
    from Cons.IH [OF r this] obtain a b where "f x a = Inr b" "R t a" "R b s'" by blast
    then show ?thesis using mono [OF t] trans by blast
  qed
qed

lemma emit_e_visits:
  "emit_e f xs = Inr ys \<Longrightarrow> x \<in> set xs \<Longrightarrow> \<exists>zs. f x = Inr zs \<and> set zs \<subseteq> set ys"
proof (induction xs arbitrary: ys)
  case Nil
  then show ?case by simp
next
  case (Cons a xs)
  from Cons.prems(1) obtain as bs where a: "f a = Inr as" and b: "emit_e f xs = Inr bs"
    and ys: "ys = as @ bs"
    by (auto simp: ebind_eq_Inr)
  show ?case
  proof (cases "x = a")
    case True
    then show ?thesis using a ys by simp
  next
    case False
    then have "x \<in> set xs" using Cons.prems(2) by simp
    from Cons.IH [OF b this] show ?thesis using ys by auto
  qed
qed

lemma emit_e_origin:
  "emit_e f xs = Inr ys \<Longrightarrow> y \<in> set ys \<Longrightarrow> \<exists>x\<in>set xs. \<exists>zs. f x = Inr zs \<and> y \<in> set zs"
  by (induction xs arbitrary: ys) (auto simp: ebind_eq_Inr)

lemma emit_e_concat:
  "emit_e f xs = Inr ys
   \<Longrightarrow> ys = concat (map (\<lambda>x. case f x of Inr zs \<Rightarrow> zs | Inl _ \<Rightarrow> []) xs)"
  by (induction xs arbitrary: ys) (auto simp: ebind_eq_Inr)

lemma grows_refl: "grows k g g"
  by (simp add: grows_def)

lemma add_member_edge_keeps:
  "add_member_edge rp gid mem g = Inr g'
   \<Longrightarrow> nodes g' = nodes g \<and> node_id_map g' = node_id_map g
       \<and> high_risk_users g' = high_risk_users g"
  by (auto simp: add_member_edge_def ebind_eq_Inr split: if_splits)

lemma add_members_keeps:
  assumes "fold_e (add_member_edge rp gid) ms g = Inr g'"
  shows "nodes g' = nodes g \<and> node_id_map g' = node_id_map g
         \<and> high_risk_users g' = high_risk_users g"
  using assms
  by (rule fold_e_invariant
        [where P = "\<lambda>h. nodes h = nodes g \<and> node_id_map h = node_id_map g
                        \<and> high_risk_users h = high_risk_users g"])
     (auto dest: add_member_edge_keeps)

lemma add_delegates_to_keeps:
  "add_delegates_to rp uid c g = Inr g'
   \<Longrightarrow> nodes g' = nodes g \<and> node_id_map g' = node_id_map g
       \<and> high_risk_users g' = high_risk_users g"
  by (auto simp: add_delegates_to_def ebind_eq_Inr split: if_splits)

lemma add_delegation_edges_keeps:
  assumes "add_delegation_edges rp data u g = Inr g'"
  shows "nodes g' = nodes g \<and> node_id_map g' = node_id_map g
         \<and> high_risk_users g' = high_risk_users g"
proof -
  have loop: "\<And>uid cs. fold_e (add_delegates_to rp uid) cs g = Inr g'
    \<Longrightarrow> nodes g' = nodes g \<and> node_id_map g' = node_id_map g
         \<and> high_risk_users g' = high_risk_users g"
    by (erule fold_e_invariant
        [where P = "\<lambda>h. nodes h = nodes g \<and> node_id_map h = node_id_map g
                        \<and> high_risk_users h = high_risk_users g"])
       (auto dest: add_delegates_to_keeps)
  show ?thesis
    using assms loop
    by (auto simp: add_delegation_edges_def ebind_eq_Inr split: if_splits)
qed

lemma delegation_loop_keeps:
  assumes "fold_e (add_delegation_edges rp data) us g = Inr g'"
  shows "nodes g' = nodes g \<and> node_id_map g' = node_id_map g
         \<and> high_risk_users g' = high_risk_users g"
  using assms
  by (rule fold_e_invariant
        [where P = "\<lambda>h. nodes h = nodes g \<and> node_id_map h = node_id_map g
                        \<and> high_risk_users h = high_risk_users g"])
     (auto dest: add_delegation_edges_keeps)

lemma add_user_grows:
  "add_user rp d u g = Inr g' \<Longrightarrow> grows (''user_'' @ account_name rp u) g g'"
  by (auto simp: add_user_def ebind_eq_Inr grows_def ids_def account_name_def user_id_of_def
      split: if_splits)

lemma add_group_grows:
  assumes "add_group rp d x g = Inr g'"
  shows "grows (''group_'' @ group_name_of rp x) g g'"
proof -
  obtain nm where nm: "py_get_d x ''Name'' (JStr []) = Inr nm"
    using assms by (auto simp: add_group_def ebind_eq_Inr)
  show ?thesis
  proof (cases "nm \<in> set (map JStr privileged_groups)")
    case False
    then have "g' = g" using assms nm by (simp add: add_group_def)
    then show ?thesis by (simp add: grows_refl)
  next
    case True
    let ?gid = "''group_'' @ py_str rp nm"
    let ?g1 = "g\<lparr> nodes := nodes g @
                         [\<lparr> n_id = ?gid, n_label = nm, n_type = ''group'',
                            n_group = py_str rp nm, n_risk = None,
                            n_spns = None \<rparr>],
                       edges := edges g @ [simple_edge d ?gid ''Contains''],
                       node_id_map := (node_id_map g)(?gid \<mapsto> ?gid) \<rparr>"
    from assms nm True obtain ms where "fold_e (add_member_edge rp ?gid) ms ?g1 = Inr g'"
      by (auto simp: add_group_def ebind_eq_Inr Let_def)
    from add_members_keeps [OF this]
    show ?thesis by (simp add: grows_def ids_def group_name_of_def nm)
  qed
qed

lemma add_computer_grows:
  "add_computer rp d c g = Inr g' \<Longrightarrow> grows (''comp_'' @ account_name rp c) g g'"
  by (auto simp: add_computer_def ebind_eq_Inr grows_def ids_def account_name_def
      comp_id_of_def split: if_splits)

lemma grows_dom:
  "grows k a b \<Longrightarrow> dom (node_id_map a) = set (ids a)
   \<Longrightarrow> dom (node_id_map b) = set (ids b)"
  unfolding grows_def by (elim disjE conjE) simp_all

lemma grows_mono: "grows k a b \<Longrightarrow> dom (node_id_map a) \<subseteq> dom (node_id_map b)"
  unfolding grows_def by (elim disjE conjE) auto

lemma grows_ids: "grows k a b \<Longrightarrow> ids b = ids a \<or> ids b = ids a @ [k]"
  unfolding grows_def by blast

lemma fold_grows_dom:
  assumes step: "\<And>x a b. f x a = Inr b \<Longrightarrow> grows (k x) a b"
      and run: "fold_e f xs s = Inr s'"
      and inv: "dom (node_id_map s) = set (ids s)"
  shows "dom (node_id_map s') = set (ids s')"
proof (rule fold_e_invariant [OF run, where P = "\<lambda>h. dom (node_id_map h) = set (ids h)"])
  show "dom (node_id_map s) = set (ids s)" by fact
next
  fix x a b
  assume a: "dom (node_id_map a) = set (ids a)" and b: "f x a = Inr b"
  show "dom (node_id_map b) = set (ids b)"
    by (rule grows_dom [OF step [OF b] a])
qed

lemma fold_grows_mono:
  assumes step: "\<And>x a b. f x a = Inr b \<Longrightarrow> grows (k x) a b"
      and run: "fold_e f xs s = Inr s'"
  shows "dom (node_id_map s) \<subseteq> dom (node_id_map s')"
proof (rule fold_e_invariant [OF run, where P = "\<lambda>h. dom (node_id_map s) \<subseteq> dom (node_id_map h)"])
  show "dom (node_id_map s) \<subseteq> dom (node_id_map s)" by simp
next
  fix x a b
  assume a: "dom (node_id_map s) \<subseteq> dom (node_id_map a)" and b: "f x a = Inr b"
  have "dom (node_id_map a) \<subseteq> dom (node_id_map b)"
    by (rule grows_mono [OF step [OF b]])
  with a show "dom (node_id_map s) \<subseteq> dom (node_id_map b)" by (rule subset_trans)
qed

lemma fold_grows_distinct:
  assumes step: "\<And>x a b. f x a = Inr b \<Longrightarrow> grows (k x) a b"
  shows "fold_e f xs s = Inr s' \<Longrightarrow> distinct (ids s) \<Longrightarrow> distinct (map k xs)
         \<Longrightarrow> set (ids s) \<inter> k ` set xs = {}
         \<Longrightarrow> distinct (ids s') \<and> set (ids s') \<subseteq> set (ids s) \<union> k ` set xs"
proof (induction xs arbitrary: s)
  case Nil
  then show ?case by simp
next
  case (Cons x xs)
  from Cons.prems(1) obtain t where t: "f x s = Inr t" and r: "fold_e f xs t = Inr s'"
    by (auto simp: ebind_eq_Inr)
  have kx: "k x \<notin> set (ids s)" using Cons.prems(4) by simp
  have kxs: "k x \<notin> k ` set xs" using Cons.prems(3) by simp
  have rest: "set (ids s) \<inter> k ` set xs = {}" using Cons.prems(4) by auto
  have g: "ids t = ids s \<or> ids t = ids s @ [k x]" by (rule grows_ids [OF step [OF t]])
  have d: "distinct (ids t)"
    using g Cons.prems(2) kx by (elim disjE) simp_all
  have sub: "set (ids t) \<subseteq> insert (k x) (set (ids s))"
    using g by (elim disjE) auto
  have dis: "set (ids t) \<inter> k ` set xs = {}"
  proof (rule ccontr)
    assume "set (ids t) \<inter> k ` set xs \<noteq> {}"
    then obtain z where z1: "z \<in> set (ids t)" and z2: "z \<in> k ` set xs" by blast
    from z1 sub have "z = k x \<or> z \<in> set (ids s)" by blast
    then show False using z2 kxs rest by blast
  qed
  have dk: "distinct (map k xs)" using Cons.prems(3) by simp
  have ih: "distinct (ids s') \<and> set (ids s') \<subseteq> set (ids t) \<union> k ` set xs"
    by (rule Cons.IH [OF r d dk dis])
  have "set (ids s') \<subseteq> set (ids s) \<union> k ` set (x # xs)"
    using ih sub by auto
  then show ?case using ih by simp
qed

lemma add_user_includes:
  assumes "add_user rp d u g = Inr g'"
      and "has_spns u = Inr True \<or> in_group ''Domain Admins'' u = Inr True"
  shows "''user_'' @ account_name rp u \<in> dom (node_id_map g')"
  using assms
  by (auto simp: add_user_def user_risk_def in_group_def ebind_eq_Inr account_name_def
      user_id_of_def split: if_splits)

lemma add_group_map:
  assumes "add_group rp d x g = Inr g'" and nm: "py_get_d x ''Name'' (JStr []) = Inr nm"
  shows "node_id_map g'
         = (if nm \<in> set (map JStr privileged_groups)
            then (node_id_map g)(''group_'' @ py_str rp nm \<mapsto> ''group_'' @ py_str rp nm)
            else node_id_map g)"
proof (cases "nm \<in> set (map JStr privileged_groups)")
  case False
  then have "g' = g" using assms by (simp add: add_group_def)
  then show ?thesis using False by simp
next
  case True
  let ?gid = "''group_'' @ py_str rp nm"
  let ?g1 = "g\<lparr> nodes := nodes g @
                       [\<lparr> n_id = ?gid, n_label = nm, n_type = ''group'',
                          n_group = py_str rp nm, n_risk = None,
                          n_spns = None \<rparr>],
                     edges := edges g @ [simple_edge d ?gid ''Contains''],
                     node_id_map := (node_id_map g)(?gid \<mapsto> ?gid) \<rparr>"
  from assms True obtain ms where "fold_e (add_member_edge rp ?gid) ms ?g1 = Inr g'"
    by (auto simp: add_group_def ebind_eq_Inr Let_def)
  from add_members_keeps [OF this] show ?thesis using True by simp
qed

lemma build_graph_stages:
  assumes "build_graph rp data = Inr g"
  obtains dv g1 g2 g3 where
    "py_get_d data ''Domain'' (JStr ''DOMAIN'') = Inr dv"
    "fold_e (add_user rp (''domain_'' @ py_str rp dv)) (snapshot_users data)
       (domain_graph (''domain_'' @ py_str rp dv) dv) = Inr g1"
    "fold_e (add_group rp (''domain_'' @ py_str rp dv)) (snapshot_groups data) g1 = Inr g2"
    "fold_e (add_computer rp (''domain_'' @ py_str rp dv)) (snapshot_computers data) g2
       = Inr g3"
    "fold_e (add_delegation_edges rp data) (high_risk_users g3) g3 = Inr g"
proof -
  let ?did = "\<lambda>dv. ''domain_'' @ py_str rp dv"
  from assms obtain dv uv us g1 gv gs g2 cv cs g3 where
    dv: "py_get_d data ''Domain'' (JStr ''DOMAIN'') = Inr dv"
    and uv: "py_get_d data ''Users'' (JList []) = Inr uv" and us: "py_iter uv = Inr us"
    and g1: "fold_e (add_user rp (?did dv)) us (domain_graph (?did dv) dv) = Inr g1"
    and gv: "py_get_d data ''SecurityGroups'' (JList []) = Inr gv" and gs: "py_iter gv = Inr gs"
    and g2: "fold_e (add_group rp (?did dv)) gs g1 = Inr g2"
    and cv: "py_get_d data ''Computers'' (JList []) = Inr cv" and cs: "py_iter cv = Inr cs"
    and g3: "fold_e (add_computer rp (?did dv)) cs g2 = Inr g3"
    and g: "fold_e (add_delegation_edges rp data) (high_risk_users g3) g3 = Inr g"
    unfolding build_graph_def Let_def ebind_eq_Inr by blast
  have "snapshot_users data = us" by (simp add: snapshot_users_def uv us)
  moreover have "snapshot_groups data = gs" by (simp add: snapshot_groups_def gv gs)
  moreover have "snapshot_computers data = cs" by (simp add: snapshot_computers_def cv cs)
  ultimately show ?thesis using that [OF dv _ _ _ g] g1 g2 g3 by simp
qed

lemma domain_graph_dom: "dom (node_id_map (domain_graph k v)) = set (ids (domain_graph k v))"
  by (simp add: domain_graph_def ids_def)

lemma build_graph_dom:
  assumes "build_graph rp data = Inr g"
  shows "dom (node_id_map g) = set (ids g)"
proof -
  from assms obtain dv g1 g2 g3 where
    u: "fold_e (add_user rp (''domain_'' @ py_str rp dv)) (snapshot_users data)
       (domain_graph (''domain_'' @ py_str rp dv) dv) = Inr g1"
    and gr: "fold_e (add_group rp (''domain_'' @ py_str rp dv)) (snapshot_groups data) g1 = Inr g2"
    and c: "fold_e (add_computer rp (''domain_'' @ py_str rp dv)) (snapshot_computers data) g2
       = Inr g3"
    and d: "fold_e (add_delegation_edges rp data) (high_risk_users g3) g3 = Inr g"
    by (rule build_graph_stages)
  have "dom (node_id_map g1) = set (ids g1)"
    using fold_grows_dom [OF add_user_grows u domain_graph_dom] .
  then have "dom (node_id_map g2) = set (ids g2)"
    using fold_grows_dom [OF add_group_grows gr] by simp
  then have "dom (node_id_map g3) = set (ids g3)"
    using fold_grows_dom [OF add_computer_grows c] by simp
  then show ?thesis using delegation_loop_keeps [OF d] by (simp add: ids_def)
qed

lemma user_in_graph:
  assumes build: "build_graph rp data = Inr g"
      and u: "u \<in> set (snapshot_users data)"
      and inc: "has_spns u = Inr True \<or> in_group ''Domain Admins'' u = Inr True"
  shows "''user_'' @ account_name rp u \<in> dom (node_id_map g)"
proof -
  from build obtain dv g1 g2 g3 where
    us: "fold_e (add_user rp (''domain_'' @ py_str rp dv)) (snapshot_users data)
       (domain_graph (''domain_'' @ py_str rp dv) dv) = Inr g1"
    and gr: "fold_e (add_group rp (''domain_'' @ py_str rp dv)) (snapshot_groups data) g1 = Inr g2"
    and c: "fold_e (add_computer rp (''domain_'' @ py_str rp dv)) (snapshot_computers data) g2
       = Inr g3"
    and d: "fold_e (add_delegation_edges rp data) (high_risk_users g3) g3 = Inr g"
    by (rule build_graph_stages)
  have "\<exists>a b. add_user rp (''domain_'' @ py_str rp dv) u a = Inr b
          \<and> dom (node_id_map (domain_graph (''domain_'' @ py_str rp dv) dv)) \<subseteq> dom (node_id_map a)
          \<and> dom (node_id_map b) \<subseteq> dom (node_id_map g1)"
  proof (rule fold_e_visits [OF _ _ _ us u])
    fix y a b
    assume "add_user rp (''domain_'' @ py_str rp dv) y a = Inr b"
    then show "dom (node_id_map a) \<subseteq> dom (node_id_map b)"
      by (rule grows_mono [OF add_user_grows])
  next
    fix a :: graph
    show "dom (node_id_map a) \<subseteq> dom (node_id_map a)" by simp
  next
    fix a b c :: graph
    assume "dom (node_id_map a) \<subseteq> dom (node_id_map b)"
      and "dom (node_id_map b) \<subseteq> dom (node_id_map c)"
    then show "dom (node_id_map a) \<subseteq> dom (node_id_map c)" by (rule subset_trans)
  qed
  then obtain a b where ab: "add_user rp (''domain_'' @ py_str rp dv) u a = Inr b"
    and b1: "dom (node_id_map b) \<subseteq> dom (node_id_map g1)" by blast
  have "''user_'' @ account_name rp u \<in> dom (node_id_map b)"
    by (rule add_user_includes [OF ab inc])
  then have "''user_'' @ account_name rp u \<in> dom (node_id_map g1)" using b1 by blast
  moreover have "dom (node_id_map g1) \<subseteq> dom (node_id_map g2)"
    by (rule fold_grows_mono [OF add_group_grows gr])
  moreover have "dom (node_id_map g2) \<subseteq> dom (node_id_map g3)"
    by (rule fold_grows_mono [OF add_computer_grows c])
  moreover have "node_id_map g = node_id_map g3"
    using delegation_loop_keeps [OF d] by simp
  ultimately show ?thesis by auto
qed

lemma da_group_in_graph:
  assumes build: "build_graph rp data = Inr g"
      and x: "x \<in> set (snapshot_groups data)"
      and nm: "py_get_d x ''Name'' (JStr []) = Inr (JStr ''Domain Admins'')"
  shows "''group_Domain Admins'' \<in> dom (node_id_map g)"
proof -
  from build obtain dv g1 g2 g3 where
    gr: "fold_e (add_group rp (''domain_'' @ py_str rp dv)) (snapshot_groups data) g1 = Inr g2"
    and c: "fold_e (add_computer rp (''domain_'' @ py_str rp dv)) (snapshot_computers data) g2
       = Inr g3"
    and d: "fold_e (add_delegation_edges rp data) (high_risk_users g3) g3 = Inr g"
    by (rule build_graph_stages)
  have "\<exists>a b. add_group rp (''domain_'' @ py_str rp dv) x a = Inr b
          \<and> dom (node_id_map g1) \<subseteq> dom (node_id_map a)
          \<and> dom (node_id_map b) \<subseteq> dom (node_id_map g2)"
  proof (rule fold_e_visits [OF _ _ _ gr x])
    fix y a b
    assume "add_group rp (''domain_'' @ py_str rp dv) y a = Inr b"
    then show "dom (node_id_map a) \<subseteq> dom (node_id_map b)"
      by (rule grows_mono [OF add_group_grows])
  next
    fix a :: graph
    show "dom (node_id_map a) \<subseteq> dom (node_id_map a)" by simp
  next
    fix a b c :: graph
    assume "dom (node_id_map a) \<subseteq> dom (node_id_map b)"
      and "dom (node_id_map b) \<subseteq> dom (node_id_map c)"
    then show "dom (node_id_map a) \<subseteq> dom (node_id_map c)" by (rule subset_trans)
  qed
  then obtain a b where ab: "add_group rp (''domain_'' @ py_str rp dv) x a = Inr b"
    and b2: "dom (node_id_map b) \<subseteq> dom (node_id_map g2)" by blast
  have "''group_Domain Admins'' \<in> dom (node_id_map b)"
    using add_group_map [OF ab nm] by (simp add: privileged_groups_def)
  then have "''group_Domain Admins'' \<in> dom (node_id_map g2)" using b2 by blast
  moreover have "dom (node_id_map g2) \<subseteq> dom (node_id_map g3)"
    by (rule fold_grows_mono [OF add_computer_grows c])
  moreover have "node_id_map g = node_id_map g3"
    using delegation_loop_keeps [OF d] by simp
  ultimately show ?thesis by auto
qed

lemma grows_avoids:
  "grows k a b \<Longrightarrow> k \<noteq> z \<Longrightarrow> z \<notin> dom (node_id_map a) \<Longrightarrow> z \<notin> dom (node_id_map b)"
  unfolding grows_def by (elim disjE conjE) simp_all

lemma add_group_avoids:
  assumes ab: "add_group rp d x a = Inr b"
      and nm: "py_get_d x ''Name'' (JStr []) \<noteq> Inr (JStr ''Domain Admins'')"
      and a: "''group_Domain Admins'' \<notin> dom (node_id_map a)"
  shows "''group_Domain Admins'' \<notin> dom (node_id_map b)"
proof -
  from ab obtain v where v: "py_get_d x ''Name'' (JStr []) = Inr v"
    by (auto simp: add_group_def ebind_eq_Inr)
  have ne: "v \<noteq> JStr ''Domain Admins''" using nm v by simp
  show ?thesis
  proof (cases "v \<in> set (map JStr privileged_groups)")
    case False
    then show ?thesis using add_group_map [OF ab v] a by simp
  next
    case True
    then have "''group_'' @ py_str rp v \<noteq> ''group_Domain Admins''"
      using ne by (auto simp: privileged_groups_def)
    then show ?thesis using add_group_map [OF ab v] a True by simp
  qed
qed

lemma no_da_group_in_graph:
  assumes build: "build_graph rp data = Inr g"
      and none: "\<forall>x\<in>set (snapshot_groups data).
                   py_get_d x ''Name'' (JStr []) \<noteq> Inr (JStr ''Domain Admins'')"
  shows "''group_Domain Admins'' \<notin> dom (node_id_map g)"
proof -
  let ?z = "''group_Domain Admins''"
  from build obtain dv g1 g2 g3 where
    us: "fold_e (add_user rp (''domain_'' @ py_str rp dv)) (snapshot_users data)
       (domain_graph (''domain_'' @ py_str rp dv) dv) = Inr g1"
    and gr: "fold_e (add_group rp (''domain_'' @ py_str rp dv)) (snapshot_groups data) g1 = Inr g2"
    and c: "fold_e (add_computer rp (''domain_'' @ py_str rp dv)) (snapshot_computers data) g2
       = Inr g3"
    and d: "fold_e (add_delegation_edges rp data) (high_risk_users g3) g3 = Inr g"
    by (rule build_graph_stages)
  have g0: "?z \<notin> dom (node_id_map (domain_graph (''domain_'' @ py_str rp dv) dv))"
    by (simp add: domain_graph_def)
  have g1: "?z \<notin> dom (node_id_map g1)"
  proof (rule fold_e_invariant [OF us, where P = "\<lambda>h. ?z \<notin> dom (node_id_map h)"])
    show "?z \<notin> dom (node_id_map (domain_graph (''domain_'' @ py_str rp dv) dv))" by (rule g0)
  next
    fix x a b
    assume a: "?z \<notin> dom (node_id_map a)"
      and ab: "add_user rp (''domain_'' @ py_str rp dv) x a = Inr b"
    show "?z \<notin> dom (node_id_map b)"
      by (rule grows_avoids [OF add_user_grows [OF ab] _ a]) simp
  qed
  have g2: "?z \<notin> dom (node_id_map g2)"
  proof (rule fold_e_invariant [OF gr, where P = "\<lambda>h. ?z \<notin> dom (node_id_map h)"])
    show "?z \<notin> dom (node_id_map g1)" by (rule g1)
  next
    fix x a b
    assume x: "x \<in> set (snapshot_groups data)" and a: "?z \<notin> dom (node_id_map a)"
      and ab: "add_group rp (''domain_'' @ py_str rp dv) x a = Inr b"
    have "py_get_d x ''Name'' (JStr []) \<noteq> Inr (JStr ''Domain Admins'')"
      using none x by blast
    then show "?z \<notin> dom (node_id_map b)" by (rule add_group_avoids [OF ab _ a])
  qed
  have g3: "?z \<notin> dom (node_id_map g3)"
  proof (rule fold_e_invariant [OF c, where P = "\<lambda>h. ?z \<notin> dom (node_id_map h)"])
    show "?z \<notin> dom (node_id_map g2)" by (rule g2)
  next
    fix x a b
    assume a: "?z \<notin> dom (node_id_map a)"
      and ab: "add_computer rp (''domain_'' @ py_str rp dv) x a = Inr b"
    show "?z \<notin> dom (node_id_map b)"
      by (rule grows_avoids [OF add_computer_grows [OF ab] _ a]) simp
  qed
  have "node_id_map g = node_id_map g3" using delegation_loop_keeps [OF d] by simp
  then show ?thesis using g3 by simp
qed

section \<open>Attack-path detection: what each rule emits\<close>

lemma ggv_stages:
  assumes "generate_graph_visualization rp data = Inr (ns, es, ps)"
  obtains g where "build_graph rp data = Inr g" and "detect_attack_paths rp data g = Inr ps"
    and "ns = nodes g" and "es = map (mark_edge (attack_path_edge_ids ps)) (edges g)"
  using assms unfolding generate_graph_visualization_def ebind_eq_Inr by auto

lemma detect_stages:
  assumes "detect_attack_paths rp data g = Inr ps"
  obtains r1 r2 r3 r4 r5 where
    "(if ''group_Domain Admins'' \<in> dom (node_id_map g)
      then emit_e (group_membership_rule rp (node_id_map g)) (snapshot_users data)
      else Inr []) = Inr r1"
    "emit_e (kerberoast_rule rp (node_id_map g)) (snapshot_users data) = Inr r2"
    "emit_e (delegation_rule rp (node_id_map g)) (high_risk_users g) = Inr r3"
    "emit_e (asrep_rule rp (node_id_map g)) (snapshot_users data) = Inr r4"
    "emit_e (computer_rule rp (node_id_map g)) (snapshot_computers data) = Inr r5"
    "ps = r1 @ r2 @ r3 @ r4 @ r5"
proof -
  from assms obtain uv us r1 r2 r3 r4 cv cs r5 where
    uv: "py_get_d data ''Users'' (JList []) = Inr uv" and us: "py_iter uv = Inr us"
    and r1: "(if ''group_Domain Admins'' \<in> dom (node_id_map g)
      then emit_e (group_membership_rule rp (node_id_map g)) us else Inr []) = Inr r1"
    and r2: "emit_e (kerberoast_rule rp (node_id_map g)) us = Inr r2"
    and r3: "emit_e (delegation_rule rp (node_id_map g)) (high_risk_users g) = Inr r3"
    and r4: "emit_e (asrep_rule rp (node_id_map g)) us = Inr r4"
    and cv: "py_get_d data ''Computers'' (JList []) = Inr cv" and cs: "py_iter cv = Inr cs"
    and r5: "emit_e (computer_rule rp (node_id_map g)) cs = Inr r5"
    and ps: "ps = r1 @ r2 @ r3 @ r4 @ r5"
    unfolding detect_attack_paths_def ebind_eq_Inr by blast
  have u: "snapshot_users data = us" by (simp add: snapshot_users_def uv us)
  have c: "snapshot_computers data = cs" by (simp add: snapshot_computers_def cv cs)
  show ?thesis
    using that [OF _ _ r3 _ _ ps] r1 r2 r4 r5 unfolding u c by blast
qed

lemma group_membership_rule_emits:
  assumes "group_membership_rule rp m u = Inr zs" and "p \<in> set zs"
  shows "p_type p = ''Group Membership''
         \<and> set (p_path p) \<subseteq> insert ''group_Domain Admins'' (dom m)"
  using assms
  by (auto simp: group_membership_rule_def ebind_eq_Inr split: if_splits)

lemma kerberoast_rule_emits:
  assumes "kerberoast_rule rp m u = Inr zs" and "p \<in> set zs"
  shows "p_type p = ''Kerberoasting'' \<and> set (p_path p) \<subseteq> dom m"
  using assms
  by (auto simp: kerberoast_rule_def ebind_eq_Inr split: if_splits)

lemma delegation_rule_emits:
  assumes "delegation_rule rp m u = Inr zs" and "p \<in> set zs"
  shows "(p_type p = ''Unconstrained Delegation'' \<or> p_type p = ''Constrained Delegation'')
         \<and> p_severity p = ''high'' \<and> set (p_path p) \<subseteq> dom m"
  using assms
  by (auto simp: delegation_rule_def ebind_eq_Inr split: if_splits)

lemma asrep_rule_emits:
  assumes "asrep_rule rp m u = Inr zs" and "p \<in> set zs"
  shows "p_type p = ''AS-REP Roasting'' \<and> p_severity p = ''high''
         \<and> set (p_path p) \<subseteq> dom m"
  using assms
  by (auto simp: asrep_rule_def ebind_eq_Inr split: if_splits)

lemma computer_rule_emits:
  assumes "computer_rule rp m c = Inr zs" and "p \<in> set zs"
  shows "p_type p = ''Unconstrained Delegation'' \<and> p_severity p = ''critical''
         \<and> set (p_path p) \<subseteq> dom m"
  using assms
  by (auto simp: computer_rule_def ebind_eq_Inr split: if_splits)

section \<open>The example snapshots, evaluated\<close>

lemma lower_alice: "py_lower ''alice'' = ''alice''" by code_simp
lemma lower_bob: "py_lower ''bob'' = ''bob''" by code_simp
lemma lower_web: "py_lower ''web'' = ''web''" by code_simp
lemma lower_svc: "py_lower ''svc'' = ''svc''" by code_simp
lemma lower_svc_sql: "py_lower ''svc_sql'' = ''svc_sql''" by code_simp

lemmas run_defs =
  generate_graph_visualization_def detect_attack_paths_def graph_defs rule_defs
  mark_edge_def attack_path_edge_ids_def path_edge_keys_def edge_key_def
  simple_edge_def red_edge_def

lemma alice_only_run:
  "generate_graph_visualization plain_repr alice_only_snapshot
   = Inr ([\<lparr> n_id = ''domain_DOMAIN'', n_label = JStr ''DOMAIN'', n_type = ''domain'',
              n_group = ''domain'', n_risk = None, n_spns = None \<rparr>,
           \<lparr> n_id = ''user_alice'', n_label = JStr ''alice'', n_type = ''user'',
              n_group = ''Domain Admins'', n_risk = Some ''high'', n_spns = Some 0 \<rparr>],
          [\<lparr> e_from = ''domain_DOMAIN'', e_to = ''user_alice'', e_label = ''Member'',
              e_color = ''#848484'', e_arrows = None, e_dashes = False,
              e_attackPath = False, e_width = None \<rparr>],
          [])"
  by (simp add: alice_only_snapshot_def alice_def run_defs lower_alice)

lemma alice_da_run:
  "generate_graph_visualization plain_repr alice_da_snapshot
   = Inr ([\<lparr> n_id = ''domain_DOMAIN'', n_label = JStr ''DOMAIN'', n_type = ''domain'',
              n_group = ''domain'', n_risk = None, n_spns = None \<rparr>,
           \<lparr> n_id = ''user_alice'', n_label = JStr ''alice'', n_type = ''user'',
              n_group = ''Domain Admins'', n_risk = Some ''high'', n_spns = Some 0 \<rparr>,
           \<lparr> n_id = ''group_Domain Admins'', n_label = JStr ''Domain Admins'',
              n_type = ''group'', n_group = ''Domain Admins'', n_risk = None,
              n_spns = None \<rparr>],
          [\<lparr> e_from = ''domain_DOMAIN'', e_to = ''user_alice'', e_label = ''Member'',
              e_color = ''#848484'', e_arrows = None, e_dashes = False,
              e_attackPath = False, e_width = None \<rparr>,
           \<lparr> e_from = ''domain_DOMAIN'', e_to = ''group_Domain Admins'',
              e_label = ''Contains'', e_color = ''#848484'', e_arrows = None,
              e_dashes = False, e_attackPath = False, e_width = None \<rparr>,
           \<lparr> e_from = ''group_Domain Admins'', e_to = ''user_alice'',
              e_label = ''MemberOf'', e_color = ''#dc3545'', e_arrows = Some ''to'',
              e_dashes = False, e_attackPath = False, e_width = None \<rparr>],
          [\<lparr> p_type = ''Group Membership'', p_severity = ''critical'',
              p_path = [''user_alice'', ''group_Domain Admins''] \<rparr>])"
  by (simp add: alice_da_snapshot_def alice_def domain_admins_group_def run_defs lower_alice)

lemma bob_preauth_run:
  "generate_graph_visualization plain_repr bob_preauth_snapshot
   = Inr ([\<lparr> n_id = ''domain_DOMAIN'', n_label = JStr ''DOMAIN'', n_type = ''domain'',
              n_group = ''domain'', n_risk = None, n_spns = None \<rparr>],
          [], [])"
  by (simp add: bob_preauth_snapshot_def run_defs lower_bob lower_excluded)

lemma web_preauth_run:
  "generate_graph_visualization plain_repr web_preauth_snapshot
   = Inr ([\<lparr> n_id = ''domain_DOMAIN'', n_label = JStr ''DOMAIN'', n_type = ''domain'',
              n_group = ''domain'', n_risk = None, n_spns = None \<rparr>,
           \<lparr> n_id = ''user_web'', n_label = JStr ''web'', n_type = ''user'',
              n_group = ''user'', n_risk = Some ''high'', n_spns = Some 1 \<rparr>],
          [\<lparr> e_from = ''domain_DOMAIN'', e_to = ''user_web'', e_label = ''Member'',
              e_color = ''#848484'', e_arrows = None, e_dashes = False,
              e_attackPath = False, e_width = None \<rparr>],
          [\<lparr> p_type = ''Kerberoasting'', p_severity = ''high'', p_path = [''user_web''] \<rparr>,
           \<lparr> p_type = ''AS-REP Roasting'', p_severity = ''high'',
              p_path = [''user_web''] \<rparr>])"
  by (simp add: web_preauth_snapshot_def web_def run_defs lower_web lower_excluded)

lemma twin_run:
  "generate_graph_visualization plain_repr twin_snapshot
   = Inr ([\<lparr> n_id = ''domain_DOMAIN'', n_label = JStr ''DOMAIN'', n_type = ''domain'',
              n_group = ''domain'', n_risk = None, n_spns = None \<rparr>,
           \<lparr> n_id = ''user_svc'', n_label = JStr ''svc'', n_type = ''user'',
              n_group = ''user'', n_risk = Some ''high'', n_spns = Some 1 \<rparr>,
           \<lparr> n_id = ''user_svc'', n_label = JStr ''svc'', n_type = ''user'',
              n_group = ''user'', n_risk = Some ''high'', n_spns = Some 1 \<rparr>],
          [\<lparr> e_from = ''domain_DOMAIN'', e_to = ''user_svc'', e_label = ''Member'',
              e_color = ''#848484'', e_arrows = None, e_dashes = False,
              e_attackPath = False, e_width = None \<rparr>,
           \<lparr> e_from = ''domain_DOMAIN'', e_to = ''user_svc'', e_label = ''Member'',
              e_color = ''#848484'', e_arrows = None, e_dashes = False,
              e_attackPath = False, e_width = None \<rparr>],
          [\<lparr> p_type = ''Kerberoasting'', p_severity = ''high'', p_path = [''user_svc''] \<rparr>,
           \<lparr> p_type = ''Kerberoasting'', p_severity = ''high'',
              p_path = [''user_svc''] \<rparr>])"
  by (simp add: twin_snapshot_def run_defs lower_svc)

lemma svc_sql_run:
  "generate_graph_visualization plain_repr svc_sql_snapshot
   = Inr ([\<lparr> n_id = ''domain_DOMAIN'', n_label = JStr ''DOMAIN'', n_type = ''domain'',
              n_group = ''domain'', n_risk = None, n_spns = None \<rparr>,
           \<lparr> n_id = ''user_svc_sql'', n_label = JStr ''svc_sql'', n_type = ''user'',
              n_group = ''user'', n_risk = Some ''high'', n_spns = Some 1 \<rparr>],
          [\<lparr> e_from = ''domain_DOMAIN'', e_to = ''user_svc_sql'', e_label = ''Member'',
              e_color = ''#848484'', e_arrows = None, e_dashes = False,
              e_attackPath = False, e_width = None \<rparr>],
          [\<lparr> p_type = ''Kerberoasting'', p_severity = ''medium'',
              p_path = [''user_svc_sql''] \<rparr>])"
  by (simp add: svc_sql_snapshot_def run_defs lower_svc_sql)

section \<open>Well-typed snapshots are analysed without an exception\<close>

lemma filter_e_total:
  "(\<And>x. x \<in> set xs \<Longrightarrow> \<exists>b. p x = Inr b) \<Longrightarrow> \<exists>ys. filter_e p xs = Inr ys \<and> set ys \<subseteq> set xs"
proof (induction xs)
  case Nil
  then show ?case by simp
next
  case (Cons x xs)
  from Cons.prems [of x] obtain b where b: "p x = Inr b" by auto
  have "\<exists>ys. filter_e p xs = Inr ys \<and> set ys \<subseteq> set xs"
    by (rule Cons.IH) (simp add: Cons.prems)
  then obtain ys where "filter_e p xs = Inr ys" "set ys \<subseteq> set xs" by blast
  then show ?case using b by auto
qed

lemma fold_e_total:
  "(\<And>x s. x \<in> set xs \<Longrightarrow> \<exists>s'. f x s = Inr s') \<Longrightarrow> \<exists>s'. fold_e f xs s = Inr s'"
proof (induction xs arbitrary: s)
  case Nil
  then show ?case by simp
next
  case (Cons x xs)
  from Cons.prems [of x s] obtain t where t: "f x s = Inr t" by auto
  have "\<exists>s'. fold_e f xs t = Inr s'"
    by (rule Cons.IH) (simp add: Cons.prems)
  then show ?case using t by simp
qed

lemma emit_e_total:
  "(\<And>x. x \<in> set xs \<Longrightarrow> \<exists>zs. f x = Inr zs) \<Longrightarrow> \<exists>ys. emit_e f xs = Inr ys"
proof (induction xs)
  case Nil
  then show ?case by simp
next
  case (Cons x xs)
  from Cons.prems [of x] obtain zs where zs: "f x = Inr zs" by auto
  have "\<exists>ys. emit_e f xs = Inr ys"
    by (rule Cons.IH) (simp add: Cons.prems)
  then show ?case using zs by auto
qed

lemma wf_user_obj: "wf_user u \<Longrightarrow> \<exists>kvs. u = JObj kvs"
  by (cases u) simp_all

lemma has_delegation_total: "is_obj u \<Longrightarrow> \<exists>b. has_delegation u = Inr b"
  by (cases u) (auto simp: has_delegation_def py_get_def)

lemma get_member_of_total: "is_obj u \<Longrightarrow> \<exists>ms. get_member_of u = Inr ms"
  by (cases u) (auto simp: get_member_of_def py_get_def)

lemma in_group_total: "is_obj u \<Longrightarrow> \<exists>b. in_group g u = Inr b"
  using get_member_of_total [of u] by (auto simp: in_group_def)

lemma wf_user_is_obj: "wf_user u \<Longrightarrow> is_obj u"
  by (cases u) simp_all

lemma has_spns_total: "wf_user u \<Longrightarrow> \<exists>b. has_spns u = Inr b"
proof -
  assume w: "wf_user u"
  then obtain kvs where u: "u = JObj kvs" using wf_user_obj by blast
  from w u have f: "field_ok null_or_str_list kvs ''SPNs''" by simp
  show ?thesis
  proof (cases "map_of kvs ''SPNs''")
    case None
    then show ?thesis by (auto simp: u has_spns_def py_get_def)
  next
    case (Some v)
    then have "null_or_str_list v" using f by (simp add: field_ok_def)
    then show ?thesis using Some by (cases v) (auto simp: u has_spns_def py_get_def)
  qed
qed

lemma any_weak_enc_total: "wf_user u \<Longrightarrow> \<exists>b. any_weak_enc u = Inr b"
proof -
  assume w: "wf_user u"
  then obtain kvs where u: "u = JObj kvs" using wf_user_obj by blast
  from w u have f: "field_ok is_list kvs ''EncryptionTypes''" by simp
  show ?thesis
  proof (cases "map_of kvs ''EncryptionTypes''")
    case None
    then show ?thesis by (auto simp: u any_weak_enc_def)
  next
    case (Some v)
    then have "is_list v" using f by (simp add: field_ok_def)
    then show ?thesis using Some by (cases v) (auto simp: u any_weak_enc_def)
  qed
qed

lemma weak_encryption_total: "wf_user u \<Longrightarrow> \<exists>b. weak_encryption u = Inr b"
proof -
  assume w: "wf_user u"
  from any_weak_enc_total [OF w] obtain b where b: "any_weak_enc u = Inr b" by blast
  from w obtain kvs where u: "u = JObj kvs" using wf_user_obj by blast
  show ?thesis using b by (auto simp: weak_encryption_def u)
qed

lemma days_over_total:
  assumes "is_obj u" and "\<And>kvs. u = JObj kvs \<Longrightarrow> field_ok null_or_int kvs k"
  shows "\<exists>b. days_over k n u = Inr b"
proof -
  from assms(1) obtain kvs where u: "u = JObj kvs" by (cases u) simp_all
  have f: "field_ok null_or_int kvs k" by (rule assms(2) [OF u])
  show ?thesis
  proof (cases "map_of kvs k")
    case None
    then show ?thesis by (auto simp: u days_over_def py_get_def)
  next
    case (Some v)
    then have "null_or_int v" using f by (simp add: field_ok_def)
    then show ?thesis using Some by (cases v) (auto simp: u days_over_def py_get_def)
  qed
qed

lemma computer_delegation_total: "wf_computer c \<Longrightarrow> \<exists>b. computer_delegation c = Inr b"
proof -
  assume w: "wf_computer c"
  then obtain kvs where c: "c = JObj kvs" by (cases c) simp_all
  from w c have f: "field_ok null_or_list kvs ''ConstrainedDelegation''" by simp
  show ?thesis
  proof (cases "map_of kvs ''ConstrainedDelegation''")
    case None
    then show ?thesis by (auto simp: c computer_delegation_def py_get_def)
  next
    case (Some v)
    then have "null_or_list v" using f by (simp add: field_ok_def)
    then show ?thesis using Some
      by (cases v) (auto simp: c computer_delegation_def py_get_def)
  qed
qed

lemma list_of_iter:
  "list_of P v \<Longrightarrow> \<exists>xs. v = JList xs \<and> py_iter v = Inr xs \<and> (\<forall>x\<in>set xs. P x)"
  by (cases v) (auto simp: list_all_iff)

lemma section_wf:
  assumes "field_ok (list_of P) kvs k"
  shows "\<exists>v xs. py_get_d (JObj kvs) k (JList []) = Inr v \<and> py_iter v = Inr xs
                \<and> (\<forall>x\<in>set xs. P x)"
proof (cases "map_of kvs k")
  case None
  then show ?thesis by simp
next
  case (Some v)
  then have "list_of P v" using assms by (simp add: field_ok_def)
  from list_of_iter [OF this] show ?thesis using Some by auto
qed

lemma snapshot_users_wf:
  assumes "wf_snapshot data"
  shows "\<exists>v. py_get_d data ''Users'' (JList []) = Inr v
             \<and> py_iter v = Inr (snapshot_users data)
             \<and> (\<forall>u\<in>set (snapshot_users data). wf_user u)"
proof -
  from assms obtain kvs where d: "data = JObj kvs" by (cases data) simp_all
  from assms d have "field_ok (list_of wf_user) kvs ''Users''" by simp
  from section_wf [OF this] obtain v xs where
    v: "py_get_d (JObj kvs) ''Users'' (JList []) = Inr v" and xs: "py_iter v = Inr xs"
    and w: "\<forall>x\<in>set xs. wf_user x" by blast
  have v': "py_get_d data ''Users'' (JList []) = Inr v" using v d by simp
  have "snapshot_users data = xs" by (simp add: snapshot_users_def v' xs)
  then show ?thesis using v' xs w by blast
qed

lemma snapshot_computers_wf:
  assumes "wf_snapshot data"
  shows "\<exists>v. py_get_d data ''Computers'' (JList []) = Inr v
             \<and> py_iter v = Inr (snapshot_computers data)
             \<and> (\<forall>c\<in>set (snapshot_computers data). wf_computer c)"
proof -
  from assms obtain kvs where d: "data = JObj kvs" by (cases data) simp_all
  from assms d have "field_ok (list_of wf_computer) kvs ''Computers''" by simp
  from section_wf [OF this] obtain v xs where
    v: "py_get_d (JObj kvs) ''Computers'' (JList []) = Inr v" and xs: "py_iter v = Inr xs"
    and w: "\<forall>x\<in>set xs. wf_computer x" by blast
  have v': "py_get_d data ''Computers'' (JList []) = Inr v" using v d by simp
  have "snapshot_computers data = xs" by (simp add: snapshot_computers_def v' xs)
  then show ?thesis using v' xs w by blast
qed

lemma snapshot_groups_wf:
  assumes "wf_snapshot data"
  shows "\<exists>v. py_get_d data ''SecurityGroups'' (JList []) = Inr v
             \<and> py_iter v = Inr (snapshot_groups data)
             \<and> (\<forall>x\<in>set (snapshot_groups data). wf_group x)"
proof -
  from assms obtain kvs where d: "data = JObj kvs" by (cases data) simp_all
  from assms d have "field_ok (list_of wf_group) kvs ''SecurityGroups''" by simp
  from section_wf [OF this] obtain v xs where
    v: "py_get_d (JObj kvs) ''SecurityGroups'' (JList []) = Inr v" and xs: "py_iter v = Inr xs"
    and w: "\<forall>x\<in>set xs. wf_group x" by blast
  have v': "py_get_d data ''SecurityGroups'' (JList []) = Inr v" using v d by simp
  have "snapshot_groups data = xs" by (simp add: snapshot_groups_def v' xs)
  then show ?thesis using v' xs w by blast
qed

lemma ntlm_total:
  assumes "wf_snapshot data"
  shows "\<exists>st cnt n. py_get_d data ''Statistics'' (JObj []) = Inr st
           \<and> py_get_d st ''NTLMEventCount'' (JInt 0) = Inr cnt \<and> ntlm_score cnt = Inr n"
proof -
  from assms obtain kvs where d: "data = JObj kvs" by (cases data) simp_all
  from assms d have f: "field_ok wf_statistics kvs ''Statistics''" by simp
  have "\<exists>st. py_get_d data ''Statistics'' (JObj []) = Inr st \<and> wf_statistics st"
  proof (cases "map_of kvs ''Statistics''")
    case None
    then show ?thesis by (simp add: d field_ok_def)
  next
    case (Some v)
    then show ?thesis using f by (simp add: d field_ok_def)
  qed
  then obtain st where st: "py_get_d data ''Statistics'' (JObj []) = Inr st"
    and w: "wf_statistics st" by blast
  from w obtain svs where s: "st = JObj svs" by (cases st) simp_all
  have "\<exists>cnt n. py_get_d st ''NTLMEventCount'' (JInt 0) = Inr cnt \<and> ntlm_score cnt = Inr n"
  proof (cases "map_of svs ''NTLMEventCount''")
    case None
    then show ?thesis by (simp add: s)
  next
    case (Some v)
    then have "case v of JInt n \<Rightarrow> True | _ \<Rightarrow> False" using w s by (simp add: field_ok_def)
    then show ?thesis using Some by (cases v) (auto simp: s)
  qed
  then show ?thesis using st by blast
qed

lemma scoring_total:
  assumes w: "wf_snapshot data"
  shows "\<exists>rs. calculate_risk_scores data = Inr rs"
proof -
  let ?us = "snapshot_users data" and ?cs = "snapshot_computers data"
  from snapshot_users_wf [OF w] obtain uv where
    uv: "py_get_d data ''Users'' (JList []) = Inr uv" and us: "py_iter uv = Inr ?us"
    and wu: "\<forall>u\<in>set ?us. wf_user u" by blast
  from snapshot_computers_wf [OF w] obtain cv where
    cv: "py_get_d data ''Computers'' (JList []) = Inr cv" and cs: "py_iter cv = Inr ?cs"
    and wc: "\<forall>c\<in>set ?cs. wf_computer c" by blast
  from ntlm_total [OF w] obtain st cnt n where
    st: "py_get_d data ''Statistics'' (JObj []) = Inr st"
    and cnt: "py_get_d st ''NTLMEventCount'' (JInt 0) = Inr cnt"
    and n: "ntlm_score cnt = Inr n" by blast
  have obj: "\<And>u. u \<in> set ?us \<Longrightarrow> is_obj u" using wu wf_user_is_obj by blast
  obtain a where a: "filter_e has_spns ?us = Inr a"
    using filter_e_total [of ?us has_spns] has_spns_total wu by blast
  obtain b where b: "filter_e has_delegation ?us = Inr b"
    using filter_e_total [of ?us has_delegation] has_delegation_total obj by blast
  obtain c where c: "filter_e computer_delegation ?cs = Inr c"
    using filter_e_total [of ?cs computer_delegation] computer_delegation_total wc by blast
  obtain e where e: "filter_e weak_encryption ?us = Inr e"
    using filter_e_total [of ?us weak_encryption] weak_encryption_total wu by blast
  obtain da where da: "filter_e (in_group ''Domain Admins'') ?us = Inr da"
    and sub: "set da \<subseteq> set ?us"
    using filter_e_total [of ?us "in_group ''Domain Admins''"] in_group_total obj by blast
  have "\<And>u. u \<in> set da
        \<Longrightarrow> \<exists>r. ebind (in_group ''Protected Users'' u) (\<lambda>b. Inr (\<not> b)) = Inr r"
  proof -
    fix u assume "u \<in> set da"
    then have "is_obj u" using sub obj by blast
    from in_group_total [OF this, of "''Protected Users''"] show
      "\<exists>r. ebind (in_group ''Protected Users'' u) (\<lambda>b. Inr (\<not> b)) = Inr r" by auto
  qed
  then obtain un where
    un: "filter_e (\<lambda>u. ebind (in_group ''Protected Users'' u) (\<lambda>b. Inr (\<not> b))) da = Inr un"
    using filter_e_total
      [of da "\<lambda>u. ebind (in_group ''Protected Users'' u) (\<lambda>b. Inr (\<not> b))"] by blast
  have "\<And>u. u \<in> set ?us \<Longrightarrow> \<exists>r. days_over ''DaysSinceLastLogon'' 90 u = Inr r"
  proof -
    fix u assume u: "u \<in> set ?us"
    show "\<exists>r. days_over ''DaysSinceLastLogon'' 90 u = Inr r"
    proof (rule days_over_total [OF obj [OF u]])
      fix kvs assume "u = JObj kvs"
      then show "field_ok null_or_int kvs ''DaysSinceLastLogon''" using wu u by auto
    qed
  qed
  then obtain ina where ina: "filter_e (days_over ''DaysSinceLastLogon'' 90) ?us = Inr ina"
    using filter_e_total [of ?us "days_over ''DaysSinceLastLogon'' 90"] by blast
  have "\<And>u. u \<in> set ?us \<Longrightarrow> \<exists>r. days_over ''DaysSincePasswordChange'' 365 u = Inr r"
  proof -
    fix u assume u: "u \<in> set ?us"
    show "\<exists>r. days_over ''DaysSincePasswordChange'' 365 u = Inr r"
    proof (rule days_over_total [OF obj [OF u]])
      fix kvs assume "u = JObj kvs"
      then show "field_ok null_or_int kvs ''DaysSincePasswordChange''" using wu u by auto
    qed
  qed
  then obtain old where
    old: "filter_e (days_over ''DaysSincePasswordChange'' 365) ?us = Inr old"
    using filter_e_total [of ?us "days_over ''DaysSincePasswordChange'' 365"] by blast
  show ?thesis
    unfolding calculate_risk_scores_def
    by (simp add: uv us a b cv cs c e st cnt n da un ina old)
qed

lemma user_risk_total:
  assumes w: "wf_user u"
  shows "\<exists>r. user_risk u = Inr r"
proof -
  have o: "is_obj u" by (rule wf_user_is_obj [OF w])
  from has_spns_total [OF w] obtain a where a: "has_spns u = Inr a" by blast
  from has_delegation_total [OF o] obtain b where b: "has_delegation u = Inr b" by blast
  from in_group_total [OF o] obtain c where c: "in_group ''Domain Admins'' u = Inr c" by blast
  from in_group_total [OF o] obtain d where d: "in_group ''Enterprise Admins'' u = Inr d"
    by blast
  from any_weak_enc_total [OF w] obtain e where e: "any_weak_enc u = Inr e" by blast
  show ?thesis by (simp add: user_risk_def a b c d e)
qed

lemma spns_count_total:
  assumes w: "wf_user u"
  shows "\<exists>spns n. py_get u ''SPNs'' = Inr spns
           \<and> (if truthy spns then ebind (py_get_d u ''SPNs'' (JList [])) py_len else Inr 0)
               = Inr n"
proof -
  from w obtain kvs where u: "u = JObj kvs" using wf_user_obj by blast
  from w u have f: "field_ok null_or_str_list kvs ''SPNs''" by simp
  show ?thesis
  proof (cases "map_of kvs ''SPNs''")
    case None
    then show ?thesis by (simp add: u py_get_def)
  next
    case (Some v)
    then have "null_or_str_list v" using f by (simp add: field_ok_def)
    then show ?thesis using Some by (cases v) (auto simp: u py_get_def)
  qed
qed

lemma add_user_total:
  assumes w: "wf_user u"
  shows "\<exists>g'. add_user rp d u g = Inr g'"
proof -
  have o: "is_obj u" by (rule wf_user_is_obj [OF w])
  from user_risk_total [OF w] obtain r where r: "user_risk u = Inr r" by blast
  from get_member_of_total [OF o] obtain ms where ms: "get_member_of u = Inr ms" by blast
  from spns_count_total [OF w] obtain spns n where s: "py_get u ''SPNs'' = Inr spns"
    and n: "(if truthy spns then ebind (py_get_d u ''SPNs'' (JList [])) py_len else Inr 0)
            = Inr n" by blast
  from o obtain kvs where u: "u = JObj kvs" by (cases u) simp_all
  have sam: "\<exists>v. py_get u ''SamAccountName'' = Inr v" by (simp add: u py_get_def)
  have lab: "\<exists>v. py_get_d u ''SamAccountName'' (JStr ''N/A'') = Inr v" by (simp add: u)
  from sam lab obtain v l where v: "py_get u ''SamAccountName'' = Inr v"
    and l: "py_get_d u ''SamAccountName'' (JStr ''N/A'') = Inr l" by blast
  show ?thesis unfolding add_user_def by (simp add: r ms v l s n)
qed

lemma add_member_edge_total: "is_obj m \<Longrightarrow> \<exists>g'. add_member_edge rp gid m g = Inr g'"
  by (cases m) (auto simp: add_member_edge_def py_get_def)

lemma add_group_total:
  assumes w: "wf_group x"
  shows "\<exists>g'. add_group rp d x g = Inr g'"
proof -
  from w obtain kvs where x: "x = JObj kvs" by (cases x) simp_all
  from w x have "field_ok (list_of is_obj) kvs ''Members''" by simp
  from section_wf [OF this] obtain mv ms where
    mv: "py_get_d x ''Members'' (JList []) = Inr mv" and ms: "py_iter mv = Inr ms"
    and mo: "\<forall>m\<in>set ms. is_obj m" unfolding x by blast
  obtain nm where nm: "py_get_d x ''Name'' (JStr []) = Inr nm" by (simp add: x)
  have "\<And>gid h. \<exists>g'. fold_e (add_member_edge rp gid) ms h = Inr g'"
    by (rule fold_e_total) (use mo add_member_edge_total in blast)
  then show ?thesis unfolding add_group_def Let_def by (simp add: nm mv ms)
qed

lemma add_computer_total:
  assumes w: "wf_computer c"
  shows "\<exists>g'. add_computer rp d c g = Inr g'"
proof -
  from w obtain kvs where c: "c = JObj kvs" by (cases c) simp_all
  from w c have f: "field_ok is_str kvs ''SamAccountName''" by simp
  have "\<exists>s. replace_dollar (case map_of kvs ''SamAccountName'' of
             None \<Rightarrow> JStr ''N/A'' | Some v \<Rightarrow> v) = Inr s"
  proof (cases "map_of kvs ''SamAccountName''")
    case None
    then show ?thesis by simp
  next
    case (Some v)
    then have "is_str v" using f by (simp add: field_ok_def)
    then show ?thesis using Some by (cases v) auto
  qed
  then obtain s where s: "replace_dollar (case map_of kvs ''SamAccountName'' of
             None \<Rightarrow> JStr ''N/A'' | Some v \<Rightarrow> v) = Inr s" by blast
  show ?thesis
    unfolding add_computer_def computer_in_graph_def has_delegation_def
    by (simp add: c py_get_def s)
qed

lemma add_delegates_to_total: "is_obj c \<Longrightarrow> \<exists>g'. add_delegates_to rp uid c g = Inr g'"
  by (cases c) (auto simp: add_delegates_to_def py_get_def)

lemma wf_computer_is_obj: "wf_computer c \<Longrightarrow> is_obj c"
  by (cases c) simp_all

lemma add_delegation_edges_total:
  assumes w: "wf_snapshot data" and o: "is_obj u"
  shows "\<exists>g'. add_delegation_edges rp data u g = Inr g'"
proof -
  from snapshot_computers_wf [OF w] obtain cv where
    cv: "py_get_d data ''Computers'' (JList []) = Inr cv"
    and cs: "py_iter cv = Inr (snapshot_computers data)"
    and wc: "\<forall>c\<in>set (snapshot_computers data). wf_computer c" by blast
  from has_delegation_total [OF o] obtain b where b: "has_delegation u = Inr b" by blast
  from o obtain kvs where u: "u = JObj kvs" by (cases u) simp_all
  obtain v where v: "py_get u ''SamAccountName'' = Inr v" by (simp add: u py_get_def)
  have "\<And>uid. \<exists>g'. fold_e (add_delegates_to rp uid) (snapshot_computers data) g = Inr g'"
    by (rule fold_e_total) (use wc wf_computer_is_obj add_delegates_to_total in blast)
  then show ?thesis unfolding add_delegation_edges_def by (simp add: b v cv cs)
qed

lemma add_user_hru:
  "add_user rp d u g = Inr g'
   \<Longrightarrow> set (high_risk_users g') \<subseteq> insert u (set (high_risk_users g))"
  by (auto simp: add_user_def ebind_eq_Inr split: if_splits)

lemma add_group_hru:
  assumes "add_group rp d x g = Inr g'"
  shows "high_risk_users g' = high_risk_users g"
proof -
  obtain nm where nm: "py_get_d x ''Name'' (JStr []) = Inr nm"
    using assms by (auto simp: add_group_def ebind_eq_Inr)
  show ?thesis
  proof (cases "nm \<in> set (map JStr privileged_groups)")
    case False
    then have "g' = g" using assms nm by (simp add: add_group_def)
    then show ?thesis by simp
  next
    case True
    let ?gid = "''group_'' @ py_str rp nm"
    let ?g1 = "g\<lparr> nodes := nodes g @
                         [\<lparr> n_id = ?gid, n_label = nm, n_type = ''group'',
                            n_group = py_str rp nm, n_risk = None,
                            n_spns = None \<rparr>],
                       edges := edges g @ [simple_edge d ?gid ''Contains''],
                       node_id_map := (node_id_map g)(?gid \<mapsto> ?gid) \<rparr>"
    from assms nm True obtain ms where "fold_e (add_member_edge rp ?gid) ms ?g1 = Inr g'"
      by (auto simp: add_group_def ebind_eq_Inr Let_def)
    from add_members_keeps [OF this] show ?thesis by simp
  qed
qed

lemma add_computer_hru:
  "add_computer rp d c g = Inr g' \<Longrightarrow> high_risk_users g' = high_risk_users g"
  by (auto simp: add_computer_def ebind_eq_Inr split: if_splits)

lemma build_graph_total:
  assumes w: "wf_snapshot data"
  shows "\<exists>g. build_graph rp data = Inr g
             \<and> set (high_risk_users g) \<subseteq> set (snapshot_users data)"
proof -
  let ?us = "snapshot_users data" and ?gs = "snapshot_groups data"
    and ?cs = "snapshot_computers data"
  from w obtain kvs where d: "data = JObj kvs" by (cases data) simp_all
  obtain dv where dv: "py_get_d data ''Domain'' (JStr ''DOMAIN'') = Inr dv" by (simp add: d)
  let ?did = "''domain_'' @ py_str rp dv"
  from snapshot_users_wf [OF w] obtain uv where
    uv: "py_get_d data ''Users'' (JList []) = Inr uv" and us: "py_iter uv = Inr ?us"
    and wu: "\<forall>u\<in>set ?us. wf_user u" by blast
  from snapshot_groups_wf [OF w] obtain gv where
    gv: "py_get_d data ''SecurityGroups'' (JList []) = Inr gv" and gs: "py_iter gv = Inr ?gs"
    and wg: "\<forall>x\<in>set ?gs. wf_group x" by blast
  from snapshot_computers_wf [OF w] obtain cv where
    cv: "py_get_d data ''Computers'' (JList []) = Inr cv" and cs: "py_iter cv = Inr ?cs"
    and wc: "\<forall>c\<in>set ?cs. wf_computer c" by blast
  have "\<exists>g1. fold_e (add_user rp ?did) ?us (domain_graph ?did dv) = Inr g1"
    by (rule fold_e_total) (use wu add_user_total in blast)
  then obtain g1 where g1: "fold_e (add_user rp ?did) ?us (domain_graph ?did dv) = Inr g1"
    by blast
  have h1: "set (high_risk_users g1) \<subseteq> set ?us"
  proof (rule fold_e_invariant
           [OF g1, where P = "\<lambda>h. set (high_risk_users h) \<subseteq> set ?us"])
    show "set (high_risk_users (domain_graph ?did dv)) \<subseteq> set ?us"
      by (simp add: domain_graph_def)
  next
    fix x a b
    assume "x \<in> set ?us" and "set (high_risk_users a) \<subseteq> set ?us"
      and "add_user rp ?did x a = Inr b"
    then show "set (high_risk_users b) \<subseteq> set ?us" using add_user_hru by blast
  qed
  have "\<exists>g2. fold_e (add_group rp ?did) ?gs g1 = Inr g2"
    by (rule fold_e_total) (use wg add_group_total in blast)
  then obtain g2 where g2: "fold_e (add_group rp ?did) ?gs g1 = Inr g2" by blast
  have h2: "high_risk_users g2 = high_risk_users g1"
  proof (rule fold_e_invariant
           [OF g2, where P = "\<lambda>h. high_risk_users h = high_risk_users g1"])
    show "high_risk_users g1 = high_risk_users g1" by simp
  next
    fix x a b
    assume "high_risk_users a = high_risk_users g1" and "add_group rp ?did x a = Inr b"
    then show "high_risk_users b = high_risk_users g1" using add_group_hru by simp
  qed
  have "\<exists>g3. fold_e (add_computer rp ?did) ?cs g2 = Inr g3"
    by (rule fold_e_total) (use wc add_computer_total in blast)
  then obtain g3 where g3: "fold_e (add_computer rp ?did) ?cs g2 = Inr g3" by blast
  have h3: "high_risk_users g3 = high_risk_users g2"
  proof (rule fold_e_invariant
           [OF g3, where P = "\<lambda>h. high_risk_users h = high_risk_users g2"])
    show "high_risk_users g2 = high_risk_users g2" by simp
  next
    fix x a b
    assume "high_risk_users a = high_risk_users g2" and "add_computer rp ?did x a = Inr b"
    then show "high_risk_users b = high_risk_users g2" using add_computer_hru by simp
  qed
  have sub3: "set (high_risk_users g3) \<subseteq> set ?us" using h1 h2 h3 by simp
  have "\<exists>g. fold_e (add_delegation_edges rp data) (high_risk_users g3) g3 = Inr g"
  proof (rule fold_e_total)
    fix x s
    assume "x \<in> set (high_risk_users g3)"
    then have "is_obj x" using sub3 wu wf_user_is_obj by blast
    then show "\<exists>s'. add_delegation_edges rp data x s = Inr s'"
      by (rule add_delegation_edges_total [OF w])
  qed
  then obtain g where g: "fold_e (add_delegation_edges rp data) (high_risk_users g3) g3 = Inr g"
    by blast
  have "high_risk_users g = high_risk_users g3" using delegation_loop_keeps [OF g] by simp
  then have sub: "set (high_risk_users g) \<subseteq> set ?us" using sub3 by simp
  have "build_graph rp data = Inr g"
    unfolding build_graph_def Let_def using g1 g2 g3 g by (simp add: dv uv us gv gs cv cs)
  then show ?thesis using sub by blast
qed

lemma lower_sam_total:
  assumes "is_obj u" and "\<And>kvs. u = JObj kvs \<Longrightarrow> field_ok is_str kvs ''SamAccountName''"
  shows "\<exists>v s. py_get_d u ''SamAccountName'' (JStr []) = Inr v \<and> lower_of v = Inr s"
proof -
  from assms(1) obtain kvs where u: "u = JObj kvs" by (cases u) simp_all
  have f: "field_ok is_str kvs ''SamAccountName''" by (rule assms(2) [OF u])
  show ?thesis
  proof (cases "map_of kvs ''SamAccountName''")
    case None
    then show ?thesis by (simp add: u)
  next
    case (Some v)
    then have "is_str v" using f by (simp add: field_ok_def)
    then show ?thesis using Some by (cases v) (auto simp: u)
  qed
qed

lemma wf_user_lower_sam:
  assumes w: "wf_user u"
  shows "\<exists>v s. py_get_d u ''SamAccountName'' (JStr []) = Inr v \<and> lower_of v = Inr s"
proof (rule lower_sam_total [OF wf_user_is_obj [OF w]])
  fix kvs assume "u = JObj kvs"
  then show "field_ok is_str kvs ''SamAccountName''" using w by simp
qed

lemma group_membership_rule_total:
  assumes w: "wf_user u"
  shows "\<exists>zs. group_membership_rule rp m u = Inr zs"
proof -
  from wf_user_lower_sam [OF w] obtain v s where
    v: "py_get_d u ''SamAccountName'' (JStr []) = Inr v" and s: "lower_of v = Inr s" by blast
  from get_member_of_total [OF wf_user_is_obj [OF w]] obtain ms where
    ms: "get_member_of u = Inr ms" by blast
  show ?thesis unfolding group_membership_rule_def by (simp add: v s ms)
qed

lemma is_likely_service_total:
  assumes w: "wf_user u"
  shows "\<exists>b. is_likely_service low u = Inr b"
proof -
  from w obtain kvs where u: "u = JObj kvs" using wf_user_obj by blast
  from w u have f: "field_ok is_str kvs ''Description''" by simp
  have "\<exists>d t. py_get_d u ''Description'' (JStr []) = Inr d \<and> lower_of d = Inr t"
  proof (cases "map_of kvs ''Description''")
    case None
    then show ?thesis by (simp add: u)
  next
    case (Some v)
    then have "is_str v" using f by (simp add: field_ok_def)
    then show ?thesis using Some by (cases v) (auto simp: u)
  qed
  then obtain d t where "py_get_d u ''Description'' (JStr []) = Inr d" "lower_of d = Inr t"
    by blast
  then show ?thesis by (auto simp: is_likely_service_def)
qed

lemma list_all_take: "list_all P xs \<Longrightarrow> list_all P (take n xs)"
  by (auto simp: list_all_iff dest: in_set_takeD)

lemma is_str_case: "is_str x = (case x of JStr s \<Rightarrow> True | _ \<Rightarrow> False)"
  by (cases x) simp_all

lemma spn_steps_total:
  assumes w: "wf_user u" and s: "has_spns u = Inr True"
  shows "\<exists>spns st. py_get_d u ''SPNs'' (JList []) = Inr spns \<and> spn_steps spns = Inr st"
proof -
  from w obtain kvs where u: "u = JObj kvs" using wf_user_obj by blast
  from w u have f: "field_ok null_or_str_list kvs ''SPNs''" by simp
  show ?thesis
  proof (cases "map_of kvs ''SPNs''")
    case None
    then show ?thesis by (simp add: u)
  next
    case (Some v)
    then have n: "null_or_str_list v" using f by (simp add: field_ok_def)
    show ?thesis
    proof (cases v)
      case (JList xs)
      then have "list_all is_str (take 3 xs)" using n by (simp add: list_all_take)
      then have "list_all (\<lambda>x. case x of JStr _ \<Rightarrow> True | _ \<Rightarrow> False) (take 3 xs)"
        by (simp add: list_all_iff is_str_case)
      then show ?thesis using Some JList by (simp add: u)
    qed (use n s Some u in \<open>auto simp: has_spns_def py_get_def\<close>)
  qed
qed

lemma kerberoast_rule_total:
  assumes w: "wf_user u"
  shows "\<exists>zs. kerberoast_rule rp m u = Inr zs"
proof -
  from wf_user_lower_sam [OF w] obtain v low where
    v: "py_get_d u ''SamAccountName'' (JStr []) = Inr v" and low: "lower_of v = Inr low"
    by blast
  from has_spns_total [OF w] obtain b where b: "has_spns u = Inr b" by blast
  from is_likely_service_total [OF w] obtain svc where
    svc: "is_likely_service low u = Inr svc" by blast
  show ?thesis
  proof (cases b)
    case False
    then show ?thesis unfolding kerberoast_rule_def by (simp add: v low b)
  next
    case True
    then have "has_spns u = Inr True" using b by simp
    from spn_steps_total [OF w this] obtain spns st where
      "py_get_d u ''SPNs'' (JList []) = Inr spns" "spn_steps spns = Inr st" by blast
    then show ?thesis unfolding kerberoast_rule_def by (simp add: v low b svc)
  qed
qed

lemma delegation_rule_total:
  assumes o: "is_obj u"
  shows "\<exists>zs. delegation_rule rp m u = Inr zs"
proof -
  from has_delegation_total [OF o] obtain b where b: "has_delegation u = Inr b" by blast
  from o obtain kvs where u: "u = JObj kvs" by (cases u) simp_all
  obtain v where v: "py_get u ''SamAccountName'' = Inr v" by (simp add: u py_get_def)
  obtain t where t: "py_get u ''TrustedForDelegation'' = Inr t" by (simp add: u py_get_def)
  show ?thesis unfolding delegation_rule_def by (simp add: b v t)
qed

lemma asrep_rule_total:
  assumes w: "wf_user u"
  shows "\<exists>zs. asrep_rule rp m u = Inr zs"
proof -
  from wf_user_lower_sam [OF w] obtain v low where
    v: "py_get_d u ''SamAccountName'' (JStr []) = Inr v" and low: "lower_of v = Inr low"
    by blast
  from w obtain kvs where u: "u = JObj kvs" using wf_user_obj by blast
  obtain f where f: "py_get u ''DoesNotRequirePreAuth'' = Inr f" by (simp add: u py_get_def)
  show ?thesis unfolding asrep_rule_def by (simp add: v low f)
qed

lemma computer_rule_total:
  assumes w: "wf_computer c"
  shows "\<exists>zs. computer_rule rp m c = Inr zs"
proof -
  from w obtain kvs where c: "c = JObj kvs" by (cases c) simp_all
  from w c have f: "field_ok is_str kvs ''SamAccountName''" by simp
  have "\<exists>s. replace_dollar (case map_of kvs ''SamAccountName'' of
             None \<Rightarrow> JStr [] | Some v \<Rightarrow> v) = Inr s"
  proof (cases "map_of kvs ''SamAccountName''")
    case None
    then show ?thesis by simp
  next
    case (Some v)
    then have "is_str v" using f by (simp add: field_ok_def)
    then show ?thesis using Some by (cases v) auto
  qed
  then obtain s where s: "replace_dollar (case map_of kvs ''SamAccountName'' of
             None \<Rightarrow> JStr [] | Some v \<Rightarrow> v) = Inr s" by blast
  show ?thesis unfolding computer_rule_def by (simp add: c py_get_def s)
qed

lemma detect_total:
  assumes w: "wf_snapshot data"
      and h: "set (high_risk_users g) \<subseteq> set (snapshot_users data)"
  shows "\<exists>ps. detect_attack_paths rp data g = Inr ps"
proof -
  let ?us = "snapshot_users data" and ?cs = "snapshot_computers data"
  let ?m = "node_id_map g"
  from snapshot_users_wf [OF w] obtain uv where
    uv: "py_get_d data ''Users'' (JList []) = Inr uv" and us: "py_iter uv = Inr ?us"
    and wu: "\<forall>u\<in>set ?us. wf_user u" by blast
  from snapshot_computers_wf [OF w] obtain cv where
    cv: "py_get_d data ''Computers'' (JList []) = Inr cv" and cs: "py_iter cv = Inr ?cs"
    and wc: "\<forall>c\<in>set ?cs. wf_computer c" by blast
  have "\<exists>r. emit_e (group_membership_rule rp ?m) ?us = Inr r"
    by (rule emit_e_total) (use wu group_membership_rule_total in blast)
  then obtain r1 where r1: "(if ''group_Domain Admins'' \<in> dom ?m
            then emit_e (group_membership_rule rp ?m) ?us else Inr []) = Inr r1"
    by (cases "''group_Domain Admins'' \<in> dom ?m") auto
  have "\<exists>r. emit_e (kerberoast_rule rp ?m) ?us = Inr r"
    by (rule emit_e_total) (use wu kerberoast_rule_total in blast)
  then obtain r2 where r2: "emit_e (kerberoast_rule rp ?m) ?us = Inr r2" by blast
  have "\<exists>r. emit_e (delegation_rule rp ?m) (high_risk_users g) = Inr r"
  proof (rule emit_e_total)
    fix x assume "x \<in> set (high_risk_users g)"
    then have "is_obj x" using h wu wf_user_is_obj by blast
    then show "\<exists>zs. delegation_rule rp ?m x = Inr zs" by (rule delegation_rule_total)
  qed
  then obtain r3 where r3: "emit_e (delegation_rule rp ?m) (high_risk_users g) = Inr r3"
    by blast
  have "\<exists>r. emit_e (asrep_rule rp ?m) ?us = Inr r"
    by (rule emit_e_total) (use wu asrep_rule_total in blast)
  then obtain r4 where r4: "emit_e (asrep_rule rp ?m) ?us = Inr r4" by blast
  have "\<exists>r. emit_e (computer_rule rp ?m) ?cs = Inr r"
    by (rule emit_e_total) (use wc computer_rule_total in blast)
  then obtain r5 where r5: "emit_e (computer_rule rp ?m) ?cs = Inr r5" by blast
  show ?thesis
    unfolding detect_attack_paths_def using r1 r2 r3 r4 r5 by (simp add: uv us cv cs)
qed

lemma analysis_total:
  assumes w: "wf_snapshot data"
  shows "\<exists>ns es ps. generate_graph_visualization rp data = Inr (ns, es, ps)"
proof -
  from build_graph_total [OF w] obtain g where g: "build_graph rp data = Inr g"
    and h: "set (high_risk_users g) \<subseteq> set (snapshot_users data)" by blast
  from detect_total [OF w h] obtain ps where ps: "detect_attack_paths rp data g = Inr ps"
    by blast
  show ?thesis unfolding generate_graph_visualization_def by (simp add: g ps)
qed

section \<open>Negative scores\<close>

lemma negative_ntlm_scores:
  "calculate_risk_scores negative_ntlm_snapshot
     = Inr \<lparr> kerberoasting = 0, delegation = 0, encryption = 0, ntlm = - 10,
             privileged = 0, inactive = 0 \<rparr>"
  by (simp add: negative_ntlm_snapshot_def calculate_risk_scores_def)

text \<open>
  C2.  With an NTLM event count of \<open>- 5\<close> the ntlm score is \<open>- 10\<close> and the overall score is
  \<open>- 1\<close>: the scores are capped at 100 and nothing keeps them from falling below 0.
\<close>

theorem negative_count_negative_scores:
  "calculate_risk_scores negative_ntlm_snapshot
     = Inr \<lparr> kerberoasting = 0, delegation = 0, encryption = 0, ntlm = - 10,
             privileged = 0, inactive = 0 \<rparr>
   \<and> get_overall_risk_score \<lparr> kerberoasting = 0, delegation = 0, encryption = 0,
                               ntlm = - 10, privileged = 0, inactive = 0 \<rparr>
       = Inr (- 1, ''risk-low'', ''Low Risk'')"
proof -
  let ?rs = "\<lparr> kerberoasting = 0, delegation = 0, encryption = 0, ntlm = - 10,
               privileged = 0, inactive = 0 \<rparr>"
  have t: "total_score ?rs = - 10" by (simp add: total_score_def)
  have q: "py_truediv10 (- 10) = Inr (- 1)"
    by (simp add: py_truediv10_def bit_length.simps round_half_even_div_def Let_def)
  have i: "py_int (- 1) = - 1" using py_int_of_int [of "- 1"] by simp
  have g: "get_overall_risk_score ?rs = Inr (- 1, ''risk-low'', ''Low Risk'')"
    unfolding get_overall_risk_score_def t q by (simp add: i)
  show ?thesis using negative_ntlm_scores g by simp
qed

section \<open>Claims about the graph and the attack paths\<close>

lemma py_get_present:
  "py_get u k = Inr v \<Longrightarrow> v \<noteq> JNull \<Longrightarrow> py_get_d u k d = Inr v"
  by (cases u) (auto simp: py_get_def split: option.splits)

lemma detected_paths_in_map:
  assumes det: "detect_attack_paths rp data g = Inr ps" and p: "p \<in> set ps"
  shows "set (p_path p) \<subseteq> dom (node_id_map g)"
proof -
  let ?m = "node_id_map g"
  from det obtain r1 r2 r3 r4 r5 where
    r1: "(if ''group_Domain Admins'' \<in> dom ?m
          then emit_e (group_membership_rule rp ?m) (snapshot_users data)
          else Inr []) = Inr r1"
    and r2: "emit_e (kerberoast_rule rp ?m) (snapshot_users data) = Inr r2"
    and r3: "emit_e (delegation_rule rp ?m) (high_risk_users g) = Inr r3"
    and r4: "emit_e (asrep_rule rp ?m) (snapshot_users data) = Inr r4"
    and r5: "emit_e (computer_rule rp ?m) (snapshot_computers data) = Inr r5"
    and ps: "ps = r1 @ r2 @ r3 @ r4 @ r5"
    by (rule detect_stages)
  from p ps consider "p \<in> set r1" | "p \<in> set r2" | "p \<in> set r3" | "p \<in> set r4"
    | "p \<in> set r5" by auto
  then show ?thesis
  proof cases
    case 1
    then have gate: "''group_Domain Admins'' \<in> dom ?m" using r1 by (auto split: if_splits)
    then have "emit_e (group_membership_rule rp ?m) (snapshot_users data) = Inr r1"
      using r1 by simp
    from emit_e_origin [OF this 1] obtain u zs where
      "group_membership_rule rp ?m u = Inr zs" "p \<in> set zs" by blast
    from group_membership_rule_emits [OF this] show ?thesis using gate by auto
  next
    case 2
    from emit_e_origin [OF r2 2] obtain u zs where
      "kerberoast_rule rp ?m u = Inr zs" "p \<in> set zs" by blast
    from kerberoast_rule_emits [OF this] show ?thesis by simp
  next
    case 3
    from emit_e_origin [OF r3 3] obtain u zs where
      "delegation_rule rp ?m u = Inr zs" "p \<in> set zs" by blast
    from delegation_rule_emits [OF this] show ?thesis by simp
  next
    case 4
    from emit_e_origin [OF r4 4] obtain u zs where
      "asrep_rule rp ?m u = Inr zs" "p \<in> set zs" by blast
    from asrep_rule_emits [OF this] show ?thesis by simp
  next
    case 5
    from emit_e_origin [OF r5 5] obtain u zs where
      "computer_rule rp ?m u = Inr zs" "p \<in> set zs" by blast
    from computer_rule_emits [OF this] show ?thesis by simp
  qed
qed

text \<open>
  C7.  In every completed run, every node id in the path of every finding is the id of a
  node of that run's graph.
\<close>

theorem attack_paths_reference_nodes:
  assumes "generate_graph_visualization rp data = Inr (ns, es, ps)"
  shows "\<forall>p\<in>set ps. set (p_path p) \<subseteq> set (map n_id ns)"
proof
  fix p assume p: "p \<in> set ps"
  from assms obtain g where b: "build_graph rp data = Inr g"
    and d: "detect_attack_paths rp data g = Inr ps" and ns: "ns = nodes g"
    by (rule ggv_stages)
  have "set (p_path p) \<subseteq> dom (node_id_map g)" by (rule detected_paths_in_map [OF d p])
  also have "dom (node_id_map g) = set (ids g)" by (rule build_graph_dom [OF b])
  finally show "set (p_path p) \<subseteq> set (map n_id ns)" by (simp add: ids_def ns)
qed

theorem attack_paths_reference_nodes_witness:
  "findings_of (generate_graph_visualization plain_repr alice_da_snapshot)
     = Inr [\<lparr> p_type = ''Group Membership'', p_severity = ''critical'',
               p_path = [''user_alice'', ''group_Domain Admins''] \<rparr>]
   \<and> node_ids_of (generate_graph_visualization plain_repr alice_da_snapshot)
     = Inr [''domain_DOMAIN'', ''user_alice'', ''group_Domain Admins'']
   \<and> set [''user_alice'', ''group_Domain Admins'']
       \<subseteq> set [''domain_DOMAIN'', ''user_alice'', ''group_Domain Admins'']"
  using attack_paths_reference_nodes [OF alice_da_run]
  by (simp add: alice_da_run findings_of_def node_ids_of_def)

lemma no_gate_no_membership_findings:
  assumes det: "detect_attack_paths rp data g = Inr ps"
      and gate: "''group_Domain Admins'' \<notin> dom (node_id_map g)"
  shows "filter (\<lambda>p. p_type p = ''Group Membership'') ps = []"
proof -
  let ?m = "node_id_map g"
  from det obtain r1 r2 r3 r4 r5 where
    r1: "(if ''group_Domain Admins'' \<in> dom ?m
          then emit_e (group_membership_rule rp ?m) (snapshot_users data)
          else Inr []) = Inr r1"
    and r2: "emit_e (kerberoast_rule rp ?m) (snapshot_users data) = Inr r2"
    and r3: "emit_e (delegation_rule rp ?m) (high_risk_users g) = Inr r3"
    and r4: "emit_e (asrep_rule rp ?m) (snapshot_users data) = Inr r4"
    and r5: "emit_e (computer_rule rp ?m) (snapshot_computers data) = Inr r5"
    and ps: "ps = r1 @ r2 @ r3 @ r4 @ r5"
    by (rule detect_stages)
  have e1: "r1 = []" using r1 gate by simp
  have e2: "\<forall>p\<in>set r2. p_type p \<noteq> ''Group Membership''"
  proof
    fix p assume "p \<in> set r2"
    from emit_e_origin [OF r2 this] obtain u zs where
      "kerberoast_rule rp ?m u = Inr zs" "p \<in> set zs" by blast
    from kerberoast_rule_emits [OF this] show "p_type p \<noteq> ''Group Membership''" by simp
  qed
  have e3: "\<forall>p\<in>set r3. p_type p \<noteq> ''Group Membership''"
  proof
    fix p assume "p \<in> set r3"
    from emit_e_origin [OF r3 this] obtain u zs where
      "delegation_rule rp ?m u = Inr zs" "p \<in> set zs" by blast
    from delegation_rule_emits [OF this] show "p_type p \<noteq> ''Group Membership''" by auto
  qed
  have e4: "\<forall>p\<in>set r4. p_type p \<noteq> ''Group Membership''"
  proof
    fix p assume "p \<in> set r4"
    from emit_e_origin [OF r4 this] obtain u zs where
      "asrep_rule rp ?m u = Inr zs" "p \<in> set zs" by blast
    from asrep_rule_emits [OF this] show "p_type p \<noteq> ''Group Membership''" by simp
  qed
  have e5: "\<forall>p\<in>set r5. p_type p \<noteq> ''Group Membership''"
  proof
    fix p assume "p \<in> set r5"
    from emit_e_origin [OF r5 this] obtain u zs where
      "computer_rule rp ?m u = Inr zs" "p \<in> set zs" by blast
    from computer_rule_emits [OF this] show "p_type p \<noteq> ''Group Membership''" by simp
  qed
  show ?thesis unfolding ps e1 using e2 e3 e4 e5 by (simp add: filter_empty_conv)
qed

text \<open>
  C10.  When no entry of the SecurityGroups section is named "Domain Admins" (in
  particular when the section is absent, so that the list of entries is empty), a
  completed run emits no Group-Membership finding, whatever the users' MemberOf lists
  hold.
\<close>

theorem no_domain_admins_group_no_findings:
  assumes "generate_graph_visualization rp data = Inr (ns, es, ps)"
      and "\<forall>x\<in>set (snapshot_groups data).
             py_get_d x ''Name'' (JStr []) \<noteq> Inr (JStr ''Domain Admins'')"
  shows "filter (\<lambda>p. p_type p = ''Group Membership'') ps = []"
proof -
  from assms(1) obtain g where b: "build_graph rp data = Inr g"
    and d: "detect_attack_paths rp data g = Inr ps"
    by (rule ggv_stages)
  have "''group_Domain Admins'' \<notin> dom (node_id_map g)"
    by (rule no_da_group_in_graph [OF b assms(2)])
  then show ?thesis by (rule no_gate_no_membership_findings [OF d])
qed

theorem no_domain_admins_group_no_findings_witness:
  "findings_of (generate_graph_visualization plain_repr alice_only_snapshot) = Inr []
   \<and> get_member_of alice = Inr [JStr ''Domain Admins'']
   \<and> snapshot_users alice_only_snapshot = [alice]
   \<and> snapshot_groups alice_only_snapshot = []
   \<and> filter (\<lambda>p. p_type p = ''Group Membership'') [] = ([] :: attack_path list)"
proof -
  have g: "snapshot_groups alice_only_snapshot = []"
    by (simp add: snapshot_groups_def alice_only_snapshot_def)
  have h: "\<forall>x\<in>set (snapshot_groups alice_only_snapshot).
             py_get_d x ''Name'' (JStr []) \<noteq> Inr (JStr ''Domain Admins'')"
    by (simp add: g)
  have u: "snapshot_users alice_only_snapshot = [alice]"
    by (simp add: snapshot_users_def alice_only_snapshot_def)
  have m: "get_member_of alice = Inr [JStr ''Domain Admins'']"
    by (simp add: get_member_of_def py_get_def alice_def)
  show ?thesis
    using no_domain_admins_group_no_findings [OF alice_only_run h] g u m
    by (simp add: alice_only_run findings_of_def)
qed

lemma group_membership_rule_result:
  assumes name: "py_get u ''SamAccountName'' = Inr (JStr s)"
      and notadmin: "py_lower s \<noteq> ''administrator''"
      and node: "''user_'' @ s \<in> dom m"
      and mo: "get_member_of u = Inr member_of"
      and da: "JStr ''Domain Admins'' \<in> set member_of"
  shows "group_membership_rule rp m u
         = Inr [\<lparr> p_type = ''Group Membership'',
                   p_severity = (if JStr ''Protected Users'' \<in> set member_of
                                 then ''high'' else ''critical''),
                   p_path = [''user_'' @ s, ''group_Domain Admins''] \<rparr>]"
proof -
  have "py_get_d u ''SamAccountName'' (JStr []) = Inr (JStr s)"
    by (rule py_get_present [OF name]) simp
  then show ?thesis
    using notadmin node mo da by (simp add: group_membership_rule_def user_id_of_def)
qed

lemma da_finding_in_run:
  assumes run: "generate_graph_visualization rp data = Inr (ns, es, ps)"
      and grp: "x \<in> set (snapshot_groups data)"
               "py_get_d x ''Name'' (JStr []) = Inr (JStr ''Domain Admins'')"
      and usr: "u \<in> set (snapshot_users data)"
      and name: "py_get u ''SamAccountName'' = Inr (JStr s)"
      and notadmin: "py_lower s \<noteq> ''administrator''"
      and mo: "get_member_of u = Inr member_of"
      and da: "JStr ''Domain Admins'' \<in> set member_of"
  shows "\<lparr> p_type = ''Group Membership'',
           p_severity = (if JStr ''Protected Users'' \<in> set member_of
                         then ''high'' else ''critical''),
           p_path = [''user_'' @ s, ''group_Domain Admins''] \<rparr> \<in> set ps"
proof -
  from run obtain g where b: "build_graph rp data = Inr g"
    and d: "detect_attack_paths rp data g = Inr ps"
    by (rule ggv_stages)
  let ?m = "node_id_map g"
  from d obtain r1 r2 r3 r4 r5 where
    r1: "(if ''group_Domain Admins'' \<in> dom ?m
          then emit_e (group_membership_rule rp ?m) (snapshot_users data)
          else Inr []) = Inr r1"
    and ps: "ps = r1 @ r2 @ r3 @ r4 @ r5"
    by (rule detect_stages)
  have gate: "''group_Domain Admins'' \<in> dom ?m" by (rule da_group_in_graph [OF b grp])
  have "in_group ''Domain Admins'' u = Inr True" using mo da by (simp add: in_group_def)
  then have "''user_'' @ account_name rp u \<in> dom ?m"
    using user_in_graph [OF b usr] by simp
  then have node: "''user_'' @ s \<in> dom ?m" by (simp add: account_name_def name)
  have e: "emit_e (group_membership_rule rp ?m) (snapshot_users data) = Inr r1"
    using r1 gate by simp
  from emit_e_visits [OF e usr] obtain zs where
    zs: "group_membership_rule rp ?m u = Inr zs" and sub: "set zs \<subseteq> set r1" by blast
  have "zs = [\<lparr> p_type = ''Group Membership'',
                 p_severity = (if JStr ''Protected Users'' \<in> set member_of
                               then ''high'' else ''critical''),
                 p_path = [''user_'' @ s, ''group_Domain Admins''] \<rparr>]"
    using zs group_membership_rule_result [OF name notadmin node mo da, of rp] by simp
  then show ?thesis using sub ps by auto
qed

text \<open>
  C3 (amended).  The analysis completes on every well-typed snapshot.  Whenever it
  completes on a snapshot whose SecurityGroups section has an entry named "Domain Admins",
  every user record with an account name other than "Administrator" (in any case) whose
  MemberOf list contains "Domain Admins" gets a Group-Membership finding with path
  [user, group]; its severity is "high" when the MemberOf list also contains "Protected
  Users" and "critical" otherwise.
\<close>

theorem domain_admin_finding:
  assumes grp: "x \<in> set (snapshot_groups data)"
               "py_get_d x ''Name'' (JStr []) = Inr (JStr ''Domain Admins'')"
      and usr: "u \<in> set (snapshot_users data)"
      and name: "py_get u ''SamAccountName'' = Inr (JStr s)"
      and notadmin: "py_lower s \<noteq> ''administrator''"
      and mo: "get_member_of u = Inr member_of"
      and da: "JStr ''Domain Admins'' \<in> set member_of"
  shows "(wf_snapshot data
          \<longrightarrow> (\<exists>ns es ps. generate_graph_visualization rp data = Inr (ns, es, ps)))
         \<and> (\<forall>ns es ps. generate_graph_visualization rp data = Inr (ns, es, ps) \<longrightarrow>
               \<lparr> p_type = ''Group Membership'',
                 p_severity = (if JStr ''Protected Users'' \<in> set member_of
                               then ''high'' else ''critical''),
                 p_path = [''user_'' @ s, ''group_Domain Admins''] \<rparr> \<in> set ps)"
  using analysis_total [of data rp] da_finding_in_run [OF _ grp usr name notadmin mo da]
  by blast

theorem domain_admin_finding_witness:
  "wf_snapshot alice_da_snapshot
   \<and> findings_of (generate_graph_visualization plain_repr alice_da_snapshot)
     = Inr [\<lparr> p_type = ''Group Membership'', p_severity = ''critical'',
               p_path = [''user_alice'', ''group_Domain Admins''] \<rparr>]
   \<and> domain_admins_group \<in> set (snapshot_groups alice_da_snapshot)
   \<and> alice \<in> set (snapshot_users alice_da_snapshot)
   \<and> get_member_of alice = Inr [JStr ''Domain Admins'']
   \<and> \<lparr> p_type = ''Group Membership'', p_severity = ''critical'',
         p_path = [''user_alice'', ''group_Domain Admins''] \<rparr>
       \<in> set [\<lparr> p_type = ''Group Membership'', p_severity = ''critical'',
                  p_path = [''user_alice'', ''group_Domain Admins''] \<rparr>]"
proof -
  have g: "domain_admins_group \<in> set (snapshot_groups alice_da_snapshot)"
    by (simp add: snapshot_groups_def alice_da_snapshot_def)
  have gn: "py_get_d domain_admins_group ''Name'' (JStr []) = Inr (JStr ''Domain Admins'')"
    by (simp add: domain_admins_group_def)
  have u: "alice \<in> set (snapshot_users alice_da_snapshot)"
    by (simp add: snapshot_users_def alice_da_snapshot_def)
  have n: "py_get alice ''SamAccountName'' = Inr (JStr ''alice'')"
    by (simp add: py_get_def alice_def)
  have l: "py_lower ''alice'' \<noteq> ''administrator''" by (simp add: lower_alice)
  have m: "get_member_of alice = Inr [JStr ''Domain Admins'']"
    by (simp add: get_member_of_def py_get_def alice_def)
  have d: "JStr ''Domain Admins'' \<in> set [JStr ''Domain Admins'']" by simp
  have w: "wf_snapshot alice_da_snapshot"
    by (simp add: alice_da_snapshot_def alice_def domain_admins_group_def field_ok_def)
  show ?thesis
    using domain_admin_finding [OF g gn u n l m d, where rp = plain_repr] w g u m
    by (simp add: alice_da_run findings_of_def)
qed

theorem domain_admin_finding_counterexample:
  "findings_of (generate_graph_visualization plain_repr alice_only_snapshot) = Inr []
   \<and> snapshot_users alice_only_snapshot = [alice]
   \<and> get_member_of alice = Inr [JStr ''Domain Admins'']
   \<and> py_get alice ''SamAccountName'' = Inr (JStr ''alice'')
   \<and> py_lower ''alice'' \<noteq> ''administrator''"
proof -
  have f: "findings_of (generate_graph_visualization plain_repr alice_only_snapshot) = Inr []"
    by (simp add: alice_only_run findings_of_def)
  have u: "snapshot_users alice_only_snapshot = [alice]"
    by (simp add: snapshot_users_def alice_only_snapshot_def)
  have m: "get_member_of alice = Inr [JStr ''Domain Admins'']"
    by (simp add: get_member_of_def py_get_def alice_def)
  have n: "py_get alice ''SamAccountName'' = Inr (JStr ''alice'')"
    by (simp add: py_get_def alice_def)
  have l: "py_lower ''alice'' \<noteq> ''administrator''" by (simp add: lower_alice)
  show ?thesis using f u m n l by simp
qed

lemma asrep_rule_result:
  assumes name: "py_get u ''SamAccountName'' = Inr (JStr s)"
      and excl: "py_lower s \<notin> set (map py_lower excluded_accounts)"
      and flag: "py_get u ''DoesNotRequirePreAuth'' = Inr f" "truthy f"
      and node: "''user_'' @ s \<in> dom m"
  shows "asrep_rule rp m u
         = Inr [\<lparr> p_type = ''AS-REP Roasting'', p_severity = ''high'',
                   p_path = [''user_'' @ s] \<rparr>]"
proof -
  have "py_get_d u ''SamAccountName'' (JStr []) = Inr (JStr s)"
    by (rule py_get_present [OF name]) simp
  then show ?thesis
    using excl flag node by (simp add: asrep_rule_def user_id_of_def)
qed

lemma asrep_severity_high:
  assumes det: "detect_attack_paths rp data g = Inr ps"
      and p: "p \<in> set ps" and t: "p_type p = ''AS-REP Roasting''"
  shows "p_severity p = ''high''"
proof -
  let ?m = "node_id_map g"
  from det obtain r1 r2 r3 r4 r5 where
    r1: "(if ''group_Domain Admins'' \<in> dom ?m
          then emit_e (group_membership_rule rp ?m) (snapshot_users data)
          else Inr []) = Inr r1"
    and r2: "emit_e (kerberoast_rule rp ?m) (snapshot_users data) = Inr r2"
    and r3: "emit_e (delegation_rule rp ?m) (high_risk_users g) = Inr r3"
    and r4: "emit_e (asrep_rule rp ?m) (snapshot_users data) = Inr r4"
    and r5: "emit_e (computer_rule rp ?m) (snapshot_computers data) = Inr r5"
    and ps: "ps = r1 @ r2 @ r3 @ r4 @ r5"
    by (rule detect_stages)
  from p ps consider "p \<in> set r1" | "p \<in> set r2" | "p \<in> set r3" | "p \<in> set r4"
    | "p \<in> set r5" by auto
  then show ?thesis
  proof cases
    case 1
    then have "emit_e (group_membership_rule rp ?m) (snapshot_users data) = Inr r1"
      using r1 by (auto split: if_splits)
    from emit_e_origin [OF this 1] obtain u zs where
      "group_membership_rule rp ?m u = Inr zs" "p \<in> set zs" by blast
    from group_membership_rule_emits [OF this] show ?thesis using t by simp
  next
    case 2
    from emit_e_origin [OF r2 2] obtain u zs where
      "kerberoast_rule rp ?m u = Inr zs" "p \<in> set zs" by blast
    from kerberoast_rule_emits [OF this] show ?thesis using t by simp
  next
    case 3
    from emit_e_origin [OF r3 3] obtain u zs where
      "delegation_rule rp ?m u = Inr zs" "p \<in> set zs" by blast
    from delegation_rule_emits [OF this] show ?thesis by simp
  next
    case 4
    from emit_e_origin [OF r4 4] obtain u zs where
      "asrep_rule rp ?m u = Inr zs" "p \<in> set zs" by blast
    from asrep_rule_emits [OF this] show ?thesis by simp
  next
    case 5
    from emit_e_origin [OF r5 5] obtain u zs where
      "computer_rule rp ?m u = Inr zs" "p \<in> set zs" by blast
    from computer_rule_emits [OF this] show ?thesis using t by simp
  qed
qed

lemma asrep_in_run:
  assumes run: "generate_graph_visualization rp data = Inr (ns, es, ps)"
      and usr: "u \<in> set (snapshot_users data)"
      and name: "py_get u ''SamAccountName'' = Inr (JStr s)"
      and excl: "py_lower s \<notin> set (map py_lower excluded_accounts)"
      and flag: "py_get u ''DoesNotRequirePreAuth'' = Inr f" "truthy f"
      and node: "''user_'' @ s \<in> set (map n_id ns)"
  shows "\<lparr> p_type = ''AS-REP Roasting'', p_severity = ''high'',
           p_path = [''user_'' @ s] \<rparr> \<in> set ps
         \<and> (\<forall>p\<in>set ps. p_type p = ''AS-REP Roasting'' \<longrightarrow> p_severity p = ''high'')"
proof -
  from run obtain g where b: "build_graph rp data = Inr g"
    and d: "detect_attack_paths rp data g = Inr ps" and ns: "ns = nodes g"
    by (rule ggv_stages)
  let ?m = "node_id_map g"
  from d obtain r1 r2 r3 r4 r5 where
    r4: "emit_e (asrep_rule rp ?m) (snapshot_users data) = Inr r4"
    and ps: "ps = r1 @ r2 @ r3 @ r4 @ r5"
    by (rule detect_stages)
  have "dom ?m = set (ids g)" by (rule build_graph_dom [OF b])
  then have nd: "''user_'' @ s \<in> dom ?m" using node by (simp add: ids_def ns)
  from emit_e_visits [OF r4 usr] obtain zs where
    zs: "asrep_rule rp ?m u = Inr zs" and sub: "set zs \<subseteq> set r4" by blast
  have "zs = [\<lparr> p_type = ''AS-REP Roasting'', p_severity = ''high'',
                 p_path = [''user_'' @ s] \<rparr>]"
    using zs asrep_rule_result [OF name excl flag nd, of rp] by simp
  then have a: "\<lparr> p_type = ''AS-REP Roasting'', p_severity = ''high'',
                   p_path = [''user_'' @ s] \<rparr> \<in> set ps"
    using sub ps by auto
  have h: "\<forall>p\<in>set ps. p_type p = ''AS-REP Roasting'' \<longrightarrow> p_severity p = ''high''"
    using asrep_severity_high [OF d] by blast
  show ?thesis using a h by simp
qed

text \<open>
  C6 (amended).  The analysis completes on every well-typed snapshot.  Whenever it
  completes, every user record that has an account name \<open>s\<close>, whose
  does-not-require-preauth flag is set, whose name is none of "Administrator", "krbtgt"
  and "Guest" (in any case) and for which \<open>user_s\<close> is the id of a node of the graph gets
  an AS-REP Roasting finding with severity "high"; and every AS-REP Roasting finding of
  the run has severity "high".
\<close>

theorem asrep_finding:
  assumes usr: "u \<in> set (snapshot_users data)"
      and name: "py_get u ''SamAccountName'' = Inr (JStr s)"
      and excl: "py_lower s \<notin> set (map py_lower excluded_accounts)"
      and flag: "py_get u ''DoesNotRequirePreAuth'' = Inr f" "truthy f"
  shows "(wf_snapshot data
          \<longrightarrow> (\<exists>ns es ps. generate_graph_visualization rp data = Inr (ns, es, ps)))
         \<and> (\<forall>ns es ps. generate_graph_visualization rp data = Inr (ns, es, ps)
                \<and> ''user_'' @ s \<in> set (map n_id ns) \<longrightarrow>
               \<lparr> p_type = ''AS-REP Roasting'', p_severity = ''high'',
                 p_path = [''user_'' @ s] \<rparr> \<in> set ps
               \<and> (\<forall>p\<in>set ps. p_type p = ''AS-REP Roasting''
                               \<longrightarrow> p_severity p = ''high''))"
proof -
  have a: "wf_snapshot data
           \<longrightarrow> (\<exists>ns es ps. generate_graph_visualization rp data = Inr (ns, es, ps))"
    using analysis_total [of data rp] by blast
  have b: "\<forall>ns es ps. generate_graph_visualization rp data = Inr (ns, es, ps)
                \<and> ''user_'' @ s \<in> set (map n_id ns) \<longrightarrow>
               \<lparr> p_type = ''AS-REP Roasting'', p_severity = ''high'',
                 p_path = [''user_'' @ s] \<rparr> \<in> set ps
               \<and> (\<forall>p\<in>set ps. p_type p = ''AS-REP Roasting''
                               \<longrightarrow> p_severity p = ''high'')"
    using asrep_in_run [OF _ usr name excl flag] by blast
  show ?thesis using a b by blast
qed

theorem asrep_finding_witness:
  "wf_snapshot web_preauth_snapshot
   \<and> findings_of (generate_graph_visualization plain_repr web_preauth_snapshot)
     = Inr [\<lparr> p_type = ''Kerberoasting'', p_severity = ''high'', p_path = [''user_web''] \<rparr>,
            \<lparr> p_type = ''AS-REP Roasting'', p_severity = ''high'',
               p_path = [''user_web''] \<rparr>]
   \<and> node_ids_of (generate_graph_visualization plain_repr web_preauth_snapshot)
     = Inr [''domain_DOMAIN'', ''user_web'']
   \<and> web \<in> set (snapshot_users web_preauth_snapshot)
   \<and> py_get web ''DoesNotRequirePreAuth'' = Inr (JBool True)
   \<and> \<lparr> p_type = ''AS-REP Roasting'', p_severity = ''high'', p_path = [''user_web''] \<rparr>
       \<in> set [\<lparr> p_type = ''Kerberoasting'', p_severity = ''high'',
                  p_path = [''user_web''] \<rparr>,
               \<lparr> p_type = ''AS-REP Roasting'', p_severity = ''high'',
                  p_path = [''user_web''] \<rparr>]"
proof -
  have u: "web \<in> set (snapshot_users web_preauth_snapshot)"
    by (simp add: snapshot_users_def web_preauth_snapshot_def)
  have n: "py_get web ''SamAccountName'' = Inr (JStr ''web'')"
    by (simp add: py_get_def web_def)
  have x: "py_lower ''web'' \<notin> set (map py_lower excluded_accounts)"
    by (simp add: lower_web lower_excluded)
  have f: "py_get web ''DoesNotRequirePreAuth'' = Inr (JBool True)"
    by (simp add: py_get_def web_def)
  have t: "truthy (JBool True)" by simp
  have nd: "''user_'' @ ''web'' \<in> set (map n_id
              [\<lparr> n_id = ''domain_DOMAIN'', n_label = JStr ''DOMAIN'', n_type = ''domain'',
                  n_group = ''domain'', n_risk = None, n_spns = None \<rparr>,
               \<lparr> n_id = ''user_web'', n_label = JStr ''web'', n_type = ''user'',
                  n_group = ''user'', n_risk = Some ''high'', n_spns = Some 1 \<rparr>])"
    by simp
  have w: "wf_snapshot web_preauth_snapshot"
    by (simp add: web_preauth_snapshot_def web_def field_ok_def)
  have "\<lparr> p_type = ''AS-REP Roasting'', p_severity = ''high'',
          p_path = [''user_'' @ ''web''] \<rparr>
        \<in> set [\<lparr> p_type = ''Kerberoasting'', p_severity = ''high'',
                   p_path = [''user_web''] \<rparr>,
                \<lparr> p_type = ''AS-REP Roasting'', p_severity = ''high'',
                   p_path = [''user_web''] \<rparr>]"
    using asrep_finding [OF u n x f t, where rp = plain_repr] web_preauth_run nd by blast
  then show ?thesis
    using w u f by (simp add: web_preauth_run findings_of_def node_ids_of_def)
qed

theorem asrep_finding_counterexample:
  "findings_of (generate_graph_visualization plain_repr bob_preauth_snapshot) = Inr []
   \<and> snapshot_users bob_preauth_snapshot
       = [JObj [(''SamAccountName'', JStr ''bob''), (''DoesNotRequirePreAuth'', JBool True)]]
   \<and> py_lower ''bob'' \<notin> set (map py_lower excluded_accounts)"
proof -
  have f: "findings_of (generate_graph_visualization plain_repr bob_preauth_snapshot) = Inr []"
    by (simp add: bob_preauth_run findings_of_def)
  have u: "snapshot_users bob_preauth_snapshot
       = [JObj [(''SamAccountName'', JStr ''bob''), (''DoesNotRequirePreAuth'', JBool True)]]"
    by (simp add: snapshot_users_def bob_preauth_snapshot_def)
  have x: "py_lower ''bob'' \<notin> set (map py_lower excluded_accounts)"
    by (simp add: lower_bob lower_excluded)
  show ?thesis using f u x by simp
qed

lemma mark_edge_flags:
  assumes "p \<in> set paths" and "Suc i < length (p_path p)"
      and "e_from e = p_path p ! i" and "e_to e = p_path p ! Suc i"
  shows "e_attackPath (mark_edge (attack_path_edge_ids paths) e)"
proof -
  have "edge_key (p_path p ! i) (p_path p ! Suc i) \<in> set (path_edge_keys (p_path p))"
    using assms(2) by (auto simp: path_edge_keys_def)
  then have "edge_key (e_from e) (e_to e) \<in> attack_path_edge_ids paths"
    using assms(1,3,4) by (auto simp: attack_path_edge_ids_def)
  then show ?thesis by (simp add: mark_edge_def)
qed

lemma mark_edge_idem: "mark_edge ks (mark_edge ks e) = mark_edge ks e"
  by (simp add: mark_edge_def)

lemma matching_edges_flagged:
  assumes run: "generate_graph_visualization rp data = Inr (ns, es, ps)"
      and e: "e \<in> set es" and p: "p \<in> set ps" and i: "Suc i < length (p_path p)"
      and m: "e_from e = p_path p ! i" "e_to e = p_path p ! Suc i"
  shows "e_attackPath e"
proof -
  from run obtain g where b: "build_graph rp data = Inr g"
    and es: "es = map (mark_edge (attack_path_edge_ids ps)) (edges g)"
    by (rule ggv_stages)
  from e es obtain e0 where e0: "e = mark_edge (attack_path_edge_ids ps) e0" by auto
  have "mark_edge (attack_path_edge_ids ps) e = e" by (simp add: e0 mark_edge_idem)
  moreover have "e_attackPath (mark_edge (attack_path_edge_ids ps) e)"
    by (rule mark_edge_flags [OF p i m])
  ultimately show ?thesis by simp
qed

text \<open>
  C8.  An edge whose (from, to) pair is a consecutive pair of some finding's path is
  flagged (\<open>matching_edges_flagged\<close>), and marking twice is marking once
  (\<open>mark_edge_idem\<close>).  But the only two-node path is [user, group], while the MemberOf
  edge runs from the group to the user: on the snapshot with the user alice in Domain
  Admins and the group entry listing her, the Group-Membership finding is emitted and the
  MemberOf edge between the group node and alice is left unflagged.
\<close>

theorem member_of_edge_not_flagged:
  "findings_of (generate_graph_visualization plain_repr alice_da_snapshot)
     = Inr [\<lparr> p_type = ''Group Membership'', p_severity = ''critical'',
               p_path = [''user_alice'', ''group_Domain Admins''] \<rparr>]
   \<and> edges_of (generate_graph_visualization plain_repr alice_da_snapshot)
     = Inr [\<lparr> e_from = ''domain_DOMAIN'', e_to = ''user_alice'', e_label = ''Member'',
               e_color = ''#848484'', e_arrows = None, e_dashes = False,
               e_attackPath = False, e_width = None \<rparr>,
            \<lparr> e_from = ''domain_DOMAIN'', e_to = ''group_Domain Admins'',
               e_label = ''Contains'', e_color = ''#848484'', e_arrows = None,
               e_dashes = False, e_attackPath = False, e_width = None \<rparr>,
            \<lparr> e_from = ''group_Domain Admins'', e_to = ''user_alice'',
               e_label = ''MemberOf'', e_color = ''#dc3545'', e_arrows = Some ''to'',
               e_dashes = False, e_attackPath = False, e_width = None \<rparr>]"
  by (simp add: alice_da_run findings_of_def edges_of_def)

section \<open>The Kerberoasting rule\<close>

lemma lower_of_Inr: "lower_of v = Inr low \<Longrightarrow> \<exists>s. v = JStr s \<and> low = py_lower s"
  by (cases v) auto

lemma py_get_d_named:
  assumes "py_get_d u k d = Inr v" and "py_get u k \<noteq> Inr JNull"
  shows "py_get u k = Inr v"
  using assms by (cases u) (auto simp: py_get_def split: option.splits)

lemma likely_service_spec:
  assumes "is_likely_service (py_lower s) u = Inr svc"
      and "py_get u ''SamAccountName'' = Inr (JStr s)"
  shows "svc = spec_service_account u"
proof (cases "py_startswith (py_lower s) ''svc_'' \<or> py_contains (py_lower s) ''service''")
  case True
  then show ?thesis using assms by (auto simp: is_likely_service_def spec_service_account_def)
next
  case False
  with assms(1) obtain d t where d: "py_get_d u ''Description'' (JStr []) = Inr d"
    and t: "lower_of d = Inr t" and svc: "svc = py_contains t ''service''"
    by (auto simp: is_likely_service_def ebind_eq_Inr)
  from lower_of_Inr [OF t] obtain x where "d = JStr x" "t = py_lower x" by blast
  then show ?thesis using False assms(2) d svc by (simp add: spec_service_account_def)
qed

lemma has_spns_listed:
  assumes "has_spns u = Inr b" and "spns_listed u"
  shows "b = at_least_one_spn u"
proof -
  from assms(1) obtain kvs where u: "u = JObj kvs"
    by (cases u) (auto simp: has_spns_def py_get_def)
  show ?thesis
  proof (cases "map_of kvs ''SPNs''")
    case None
    then show ?thesis
      using assms(1) by (auto simp: u has_spns_def at_least_one_spn_def py_get_def)
  next
    case (Some v)
    then show ?thesis
      using assms
      by (cases v)
         (auto simp: u has_spns_def at_least_one_spn_def spns_listed_def py_get_def
               split: if_splits)
  qed
qed

lemma kerberoast_rule_result:
  assumes ok: "kerberoast_rule rp m u = Inr zs"
      and named: "py_get u ''SamAccountName'' \<noteq> Inr JNull"
      and listed: "spns_listed u"
      and node: "has_spns u = Inr True \<Longrightarrow> ''user_'' @ account_name rp u \<in> dom m"
  shows "zs = (if kerberoast_trigger u then [kerberoast_finding rp u] else [])"
proof -
  from ok obtain v low where v: "py_get_d u ''SamAccountName'' (JStr []) = Inr v"
    and low: "lower_of v = Inr low"
    and rest: "(if low = ''krbtgt'' then Inr []
       else ebind (has_spns u) (\<lambda>s.
         if s \<and> user_id_of rp v \<in> dom m
         then ebind (is_likely_service low u) (\<lambda>svc.
              ebind (py_get_d u ''SPNs'' (JList [])) (\<lambda>spns.
              ebind (spn_steps spns) (\<lambda>steps.
                Inr [\<lparr> p_type = ''Kerberoasting'',
                        p_severity = (if svc then ''medium'' else ''high''),
                        p_path = [user_id_of rp v] \<rparr>])))
         else Inr [])) = Inr zs"
    unfolding kerberoast_rule_def ebind_eq_Inr by blast
  from lower_of_Inr [OF low] obtain s where s: "v = JStr s" "low = py_lower s" by blast
  have name: "py_get u ''SamAccountName'' = Inr (JStr s)"
    using py_get_d_named [OF v named] s by simp
  have acc: "account_name rp u = s" by (simp add: account_name_def name)
  show ?thesis
  proof (cases "low = ''krbtgt''")
    case True
    then show ?thesis using rest s name by (simp add: kerberoast_trigger_def named_krbtgt_def)
  next
    case False
    with rest obtain b where b: "has_spns u = Inr b"
      and rest2: "(if b \<and> user_id_of rp v \<in> dom m
         then ebind (is_likely_service low u) (\<lambda>svc.
              ebind (py_get_d u ''SPNs'' (JList [])) (\<lambda>spns.
              ebind (spn_steps spns) (\<lambda>steps.
                Inr [\<lparr> p_type = ''Kerberoasting'',
                        p_severity = (if svc then ''medium'' else ''high''),
                        p_path = [user_id_of rp v] \<rparr>])))
         else Inr []) = Inr zs"
      by (auto simp: ebind_eq_Inr)
    show ?thesis
    proof (cases b)
      case False
      then show ?thesis
        using rest2 b has_spns_listed [OF b listed] by (simp add: kerberoast_trigger_def)
    next
      case True
      then have "''user_'' @ s \<in> dom m" using node b acc by simp
      then have "user_id_of rp v \<in> dom m" using s by (simp add: user_id_of_def)
      with rest2 True obtain svc where svc: "is_likely_service low u = Inr svc"
        and zs: "zs = [\<lparr> p_type = ''Kerberoasting'',
                        p_severity = (if svc then ''medium'' else ''high''),
                        p_path = [user_id_of rp v] \<rparr>]"
        by (auto simp: ebind_eq_Inr)
      have "svc = spec_service_account u"
        using likely_service_spec [OF _ name] svc s by simp
      moreover have "kerberoast_trigger u"
        using True has_spns_listed [OF b listed] name \<open>low \<noteq> ''krbtgt''\<close> s
        by (simp add: kerberoast_trigger_def named_krbtgt_def)
      ultimately show ?thesis
        using zs s acc by (simp add: kerberoast_finding_def user_id_of_def)
    qed
  qed
qed

lemma concat_map_if: "concat (map (\<lambda>x. if P x then [f x] else []) xs) = map f (filter P xs)"
  by (induction xs) auto

lemma kerberoasting_list_equation:
  assumes run: "generate_graph_visualization rp data = Inr (ns, es, ps)"
      and named: "\<forall>u\<in>set (snapshot_users data). py_get u ''SamAccountName'' \<noteq> Inr JNull"
      and listed: "\<forall>u\<in>set (snapshot_users data). spns_listed u"
  shows "filter (\<lambda>p. p_type p = ''Kerberoasting'') ps
         = map (kerberoast_finding rp) (filter kerberoast_trigger (snapshot_users data))"
proof -
  from run obtain g where b: "build_graph rp data = Inr g"
    and d: "detect_attack_paths rp data g = Inr ps"
    by (rule ggv_stages)
  let ?m = "node_id_map g"
  let ?K = "\<lambda>p. p_type p = ''Kerberoasting''"
  from d obtain r1 r2 r3 r4 r5 where
    r1: "(if ''group_Domain Admins'' \<in> dom ?m
          then emit_e (group_membership_rule rp ?m) (snapshot_users data)
          else Inr []) = Inr r1"
    and r2: "emit_e (kerberoast_rule rp ?m) (snapshot_users data) = Inr r2"
    and r3: "emit_e (delegation_rule rp ?m) (high_risk_users g) = Inr r3"
    and r4: "emit_e (asrep_rule rp ?m) (snapshot_users data) = Inr r4"
    and r5: "emit_e (computer_rule rp ?m) (snapshot_computers data) = Inr r5"
    and ps: "ps = r1 @ r2 @ r3 @ r4 @ r5"
    by (rule detect_stages)
  have f1: "filter ?K r1 = []"
  proof -
    have "\<forall>p\<in>set r1. \<not> ?K p"
    proof
      fix p assume p: "p \<in> set r1"
      then have "emit_e (group_membership_rule rp ?m) (snapshot_users data) = Inr r1"
        using r1 by (auto split: if_splits)
      from emit_e_origin [OF this p] obtain u zs where
        "group_membership_rule rp ?m u = Inr zs" "p \<in> set zs" by blast
      from group_membership_rule_emits [OF this] show "\<not> ?K p" by simp
    qed
    then show ?thesis by (simp add: filter_empty_conv)
  qed
  have f3: "filter ?K r3 = []"
  proof -
    have "\<forall>p\<in>set r3. \<not> ?K p"
    proof
      fix p assume p: "p \<in> set r3"
      from emit_e_origin [OF r3 p] obtain u zs where
        "delegation_rule rp ?m u = Inr zs" "p \<in> set zs" by blast
      from delegation_rule_emits [OF this] show "\<not> ?K p" by auto
    qed
    then show ?thesis by (simp add: filter_empty_conv)
  qed
  have f4: "filter ?K r4 = []"
  proof -
    have "\<forall>p\<in>set r4. \<not> ?K p"
    proof
      fix p assume p: "p \<in> set r4"
      from emit_e_origin [OF r4 p] obtain u zs where
        "asrep_rule rp ?m u = Inr zs" "p \<in> set zs" by blast
      from asrep_rule_emits [OF this] show "\<not> ?K p" by simp
    qed
    then show ?thesis by (simp add: filter_empty_conv)
  qed
  have f5: "filter ?K r5 = []"
  proof -
    have "\<forall>p\<in>set r5. \<not> ?K p"
    proof
      fix p assume p: "p \<in> set r5"
      from emit_e_origin [OF r5 p] obtain u zs where
        "computer_rule rp ?m u = Inr zs" "p \<in> set zs" by blast
      from computer_rule_emits [OF this] show "\<not> ?K p" by simp
    qed
    then show ?thesis by (simp add: filter_empty_conv)
  qed
  have f2: "filter ?K r2 = r2"
  proof -
    have "\<forall>p\<in>set r2. ?K p"
    proof
      fix p assume p: "p \<in> set r2"
      from emit_e_origin [OF r2 p] obtain u zs where
        "kerberoast_rule rp ?m u = Inr zs" "p \<in> set zs" by blast
      from kerberoast_rule_emits [OF this] show "?K p" by simp
    qed
    then show ?thesis by simp
  qed
  have each: "(case kerberoast_rule rp ?m u of Inr zs \<Rightarrow> zs | Inl _ \<Rightarrow> [])
              = (if kerberoast_trigger u then [kerberoast_finding rp u] else [])"
    if u: "u \<in> set (snapshot_users data)" for u
  proof -
    from emit_e_visits [OF r2 u] obtain zs where zs: "kerberoast_rule rp ?m u = Inr zs"
      by blast
    have n: "py_get u ''SamAccountName'' \<noteq> Inr JNull" using named u by blast
    have l: "spns_listed u" using listed u by blast
    have "zs = (if kerberoast_trigger u then [kerberoast_finding rp u] else [])"
    proof (rule kerberoast_rule_result [OF zs n l])
      assume "has_spns u = Inr True"
      then show "''user_'' @ account_name rp u \<in> dom ?m"
        using user_in_graph [OF b u] by simp
    qed
    then show ?thesis by (simp add: zs)
  qed
  have "r2 = concat (map (\<lambda>u. case kerberoast_rule rp ?m u of Inr zs \<Rightarrow> zs | Inl _ \<Rightarrow> [])
                       (snapshot_users data))"
    by (rule emit_e_concat [OF r2])
  also have "map (\<lambda>u. case kerberoast_rule rp ?m u of Inr zs \<Rightarrow> zs | Inl _ \<Rightarrow> [])
                 (snapshot_users data)
             = map (\<lambda>u. if kerberoast_trigger u then [kerberoast_finding rp u] else [])
                 (snapshot_users data)"
    by (rule map_cong [OF refl]) (rule each)
  also have "concat \<dots> = map (kerberoast_finding rp)
                            (filter kerberoast_trigger (snapshot_users data))"
    by (rule concat_map_if)
  finally have r2eq: "r2 = map (kerberoast_finding rp)
                            (filter kerberoast_trigger (snapshot_users data))" .
  have "filter ?K ps = r2" unfolding ps by (simp add: f1 f2 f3 f4 f5)
  then show ?thesis using r2eq by simp
qed


lemma nameless_spn_run:
  "generate_graph_visualization plain_repr nameless_spn_snapshot
   = Inr ([\<lparr> n_id = ''domain_DOMAIN'', n_label = JStr ''DOMAIN'', n_type = ''domain'',
              n_group = ''domain'', n_risk = None, n_spns = None \<rparr>,
           \<lparr> n_id = ''user_None'', n_label = JStr ''N/A'', n_type = ''user'',
              n_group = ''user'', n_risk = Some ''high'', n_spns = Some 1 \<rparr>],
          [\<lparr> e_from = ''domain_DOMAIN'', e_to = ''user_None'', e_label = ''Member'',
              e_color = ''#848484'', e_arrows = None, e_dashes = False,
              e_attackPath = False, e_width = None \<rparr>],
          [])"
  by (simp add: nameless_spn_snapshot_def nameless_spn_user_def run_defs lower_excluded)

text \<open>
  C4.  On user records that carry an account name and whose SPNs field is a list (or is
  absent or null) the rule does what the claim says: the Kerberoasting findings of a
  completed run are exactly one per user with at least one SPN and a name other than
  "krbtgt", with severity "medium" for a service-like name or description and "high"
  otherwise (\<open>kerberoasting_list_equation\<close>), and the svc_sql snapshot scores 10 and yields
  one "medium" finding (\<open>svc_sql_scores\<close>, \<open>svc_sql_run\<close>).  A user record without an
  account name is missed: its node id is built from the absent name (\<open>user_None\<close>)
  while the rule looks for \<open>user_\<close>, so a user with one SPN and no name is in the graph
  and gets no Kerberoasting finding.
\<close>

theorem nameless_user_not_kerberoasted:
  "snapshot_users nameless_spn_snapshot = [nameless_spn_user]
   \<and> kerberoast_trigger nameless_spn_user
   \<and> node_ids_of (generate_graph_visualization plain_repr nameless_spn_snapshot)
       = Inr [''domain_DOMAIN'', ''user_None'']
   \<and> findings_of (generate_graph_visualization plain_repr nameless_spn_snapshot) = Inr []"
proof -
  have u: "snapshot_users nameless_spn_snapshot = [nameless_spn_user]"
    by (simp add: snapshot_users_def nameless_spn_snapshot_def)
  have t: "kerberoast_trigger nameless_spn_user"
    by (simp add: kerberoast_trigger_def at_least_one_spn_def named_krbtgt_def py_get_def
        nameless_spn_user_def)
  have n: "node_ids_of (generate_graph_visualization plain_repr nameless_spn_snapshot)
           = Inr [''domain_DOMAIN'', ''user_None'']"
    by (simp add: nameless_spn_run node_ids_of_def)
  have f: "findings_of (generate_graph_visualization plain_repr nameless_spn_snapshot) = Inr []"
    by (simp add: nameless_spn_run findings_of_def)
  show ?thesis using u t n f by simp
qed

lemma distinct_prefixed:
  "distinct (map (\<lambda>x. p @ f x) xs) = distinct (map f xs)"
  by (induction xs) auto

lemma ids_domain_graph: "ids (domain_graph k v) = [k]"
  by (simp add: ids_def domain_graph_def)

lemma build_graph_distinct:
  assumes b: "build_graph rp data = Inr g"
      and du: "distinct (map (account_name rp) (snapshot_users data))"
      and dg: "distinct (map (group_name_of rp) (snapshot_groups data))"
      and dc: "distinct (map (account_name rp) (snapshot_computers data))"
  shows "distinct (ids g)"
proof -
  let ?ku = "\<lambda>u. ''user_'' @ account_name rp u"
  let ?kg = "\<lambda>x. ''group_'' @ group_name_of rp x"
  let ?kc = "\<lambda>c. ''comp_'' @ account_name rp c"
  from b obtain dv g1 g2 g3 where
    us: "fold_e (add_user rp (''domain_'' @ py_str rp dv)) (snapshot_users data)
       (domain_graph (''domain_'' @ py_str rp dv) dv) = Inr g1"
    and gr: "fold_e (add_group rp (''domain_'' @ py_str rp dv)) (snapshot_groups data) g1 = Inr g2"
    and c: "fold_e (add_computer rp (''domain_'' @ py_str rp dv)) (snapshot_computers data) g2
       = Inr g3"
    and d: "fold_e (add_delegation_edges rp data) (high_risk_users g3) g3 = Inr g"
    by (rule build_graph_stages)
  let ?did = "''domain_'' @ py_str rp dv"
  let ?g0 = "domain_graph ?did dv"
  have d0: "distinct (ids ?g0)" by (simp add: ids_domain_graph)
  have x0: "set (ids ?g0) \<inter> ?ku ` set (snapshot_users data) = {}"
    by (auto simp: ids_domain_graph)
  have ku: "distinct (map ?ku (snapshot_users data))"
    by (rule distinct_prefixed [THEN iffD2, OF du])
  have kg: "distinct (map ?kg (snapshot_groups data))"
    by (rule distinct_prefixed [THEN iffD2, OF dg])
  have kc: "distinct (map ?kc (snapshot_computers data))"
    by (rule distinct_prefixed [THEN iffD2, OF dc])
  have s1: "distinct (ids g1)
            \<and> set (ids g1) \<subseteq> set (ids ?g0) \<union> ?ku ` set (snapshot_users data)"
    by (rule fold_grows_distinct [where f = "add_user rp ?did" and k = ?ku, OF _ us d0 ku x0])
       (rule add_user_grows)
  have x1: "set (ids g1) \<inter> ?kg ` set (snapshot_groups data) = {}"
    using s1 by (auto simp: ids_domain_graph)
  have s2: "distinct (ids g2)
            \<and> set (ids g2) \<subseteq> set (ids g1) \<union> ?kg ` set (snapshot_groups data)"
    by (rule fold_grows_distinct [where f = "add_group rp ?did" and k = ?kg,
          OF _ gr conjunct1 [OF s1] kg x1])
       (rule add_group_grows)
  have x2: "set (ids g2) \<inter> ?kc ` set (snapshot_computers data) = {}"
    using s1 s2 by (auto simp: ids_domain_graph)
  have s3: "distinct (ids g3)
            \<and> set (ids g3) \<subseteq> set (ids g2) \<union> ?kc ` set (snapshot_computers data)"
    by (rule fold_grows_distinct [where f = "add_computer rp ?did" and k = ?kc,
          OF _ c conjunct1 [OF s2] kc x2])
       (rule add_computer_grows)
  have "ids g = ids g3" using delegation_loop_keeps [OF d] by (simp add: ids_def)
  then show ?thesis using s3 by simp
qed

text \<open>
  C9 (amended).  In a completed run on a snapshot in which no two user records are
  formatted to the same account name, no two computer records are, and no two
  SecurityGroups entries to the same group name, the node ids are pairwise distinct.
\<close>

theorem node_ids_unique:
  assumes run: "generate_graph_visualization rp data = Inr (ns, es, ps)"
      and du: "distinct (map (account_name rp) (snapshot_users data))"
      and dg: "distinct (map (group_name_of rp) (snapshot_groups data))"
      and dc: "distinct (map (account_name rp) (snapshot_computers data))"
  shows "distinct (map n_id ns)"
proof -
  from run obtain g where b: "build_graph rp data = Inr g" and ns: "ns = nodes g"
    by (rule ggv_stages)
  have "distinct (ids g)" by (rule build_graph_distinct [OF b du dg dc])
  then show ?thesis by (simp add: ids_def ns)
qed

theorem node_ids_unique_witness:
  "node_ids_of (generate_graph_visualization plain_repr alice_da_snapshot)
     = Inr [''domain_DOMAIN'', ''user_alice'', ''group_Domain Admins'']
   \<and> map (account_name plain_repr) (snapshot_users alice_da_snapshot) = [''alice'']
   \<and> map (group_name_of plain_repr) (snapshot_groups alice_da_snapshot)
       = [''Domain Admins'']
   \<and> map (account_name plain_repr) (snapshot_computers alice_da_snapshot) = []
   \<and> distinct [''domain_DOMAIN'', ''user_alice'', ''group_Domain Admins'']"
proof -
  have u: "map (account_name plain_repr) (snapshot_users alice_da_snapshot) = [''alice'']"
    by (simp add: snapshot_users_def alice_da_snapshot_def account_name_def py_get_def
        alice_def)
  have g: "map (group_name_of plain_repr) (snapshot_groups alice_da_snapshot)
           = [''Domain Admins'']"
    by (simp add: snapshot_groups_def alice_da_snapshot_def group_name_of_def
        domain_admins_group_def)
  have c: "map (account_name plain_repr) (snapshot_computers alice_da_snapshot) = []"
    by (simp add: snapshot_computers_def alice_da_snapshot_def)
  have du: "distinct (map (account_name plain_repr) (snapshot_users alice_da_snapshot))"
    by (simp add: u)
  have dg: "distinct (map (group_name_of plain_repr) (snapshot_groups alice_da_snapshot))"
    by (simp add: g)
  have dc: "distinct (map (account_name plain_repr) (snapshot_computers alice_da_snapshot))"
    by (simp add: c)
  have n: "node_ids_of (generate_graph_visualization plain_repr alice_da_snapshot)
           = Inr [''domain_DOMAIN'', ''user_alice'', ''group_Domain Admins'']"
    by (simp add: alice_da_run node_ids_of_def)
  show ?thesis using node_ids_unique [OF alice_da_run du dg dc] u g c n by simp
qed

theorem node_ids_unique_counterexample:
  "node_ids_of (generate_graph_visualization plain_repr twin_snapshot)
     = Inr [''domain_DOMAIN'', ''user_svc'', ''user_svc'']
   \<and> \<not> distinct [''domain_DOMAIN'', ''user_svc'', ''user_svc'']"
  by (simp add: twin_run node_ids_of_def)

end
